theory Spec2Isabelle
  imports Complex_Main
begin

section \<open>Python values\<close>

text \<open>
  A Python \<open>str\<close> is a sequence of Unicode code points; \<open>len\<close> counts code points and
  indexing selects one. A string is therefore a list of code points, each a natural number.
  A literal of the source is written \<open>py ''...''\<close>.

  A finite Python \<open>float\<close> is a rational number, and every arithmetic operation on floats
  rounds its exact result to the nearest double (\<open>fl\<close>, below). A float literal of the source
  (the pause multipliers) is kept as its decimal value and rounded where it enters a
  computation.
\<close>

type_synonym pystr = "nat list"

definition py :: "string \<Rightarrow> pystr" where
  "py s = map of_char s"

datatype py_error = IndexError | ZeroDivisionError | ValueError | OverflowError

text \<open>\<open>xs[i]\<close>: an index \<open>-len(xs) \<le> i < 0\<close> selects \<open>xs[len(xs) + i]\<close>; outside \<open>-len(xs) \<le> i < len(xs)\<close> the access raises \<open>IndexError\<close>.\<close>

definition py_index :: "'a list \<Rightarrow> int \<Rightarrow> py_error + 'a" where
  "py_index xs i =
     (if 0 \<le> i \<and> i < int (length xs) then Inr (xs ! nat i)
      else if i < 0 \<and> - int (length xs) \<le> i then Inr (xs ! nat (int (length xs) + i))
      else Inl IndexError)"

text \<open>\<open>xs[:i]\<close> and \<open>xs[i:]\<close>: a negative bound counts from the end, and bounds are clipped.\<close>

definition py_slice_to :: "'a list \<Rightarrow> int \<Rightarrow> 'a list" where
  "py_slice_to xs i = (if i < 0 then take (nat (int (length xs) + i)) xs else take (nat i) xs)"

definition py_slice_from :: "'a list \<Rightarrow> int \<Rightarrow> 'a list" where
  "py_slice_from xs i = (if i < 0 then drop (nat (int (length xs) + i)) xs else drop (nat i) xs)"

text \<open>\<open>int(x)\<close> of a finite float truncates towards zero.\<close>

definition py_int :: "rat \<Rightarrow> int" where
  "py_int x = (if x < 0 then - \<lfloor>- x\<rfloor> else \<lfloor>x\<rfloor>)"

subsection \<open>Strings\<close>

text \<open>
  \<open>str.isspace\<close> of one code point. The same set of code points is what \<open>str.strip()\<close>,
  \<open>str.split()\<close> and the pattern \<open>\s\<close> of \<open>re\<close> (on \<open>str\<close>) treat as whitespace:
  U+0009..U+000D, U+001C..U+0020, U+0085, U+00A0, U+1680, U+2000..U+200A, U+2028, U+2029,
  U+202F, U+205F, U+3000.
\<close>

definition isspace :: "nat \<Rightarrow> bool" where
  "isspace c =
     ((9 \<le> c \<and> c \<le> 13) \<or> (28 \<le> c \<and> c \<le> 32) \<or> c = 133 \<or> c = 160 \<or> c = 5760
      \<or> (8192 \<le> c \<and> c \<le> 8202) \<or> c = 8232 \<or> c = 8233 \<or> c = 8239 \<or> c = 8287
      \<or> c = 12288)"

text \<open>\<open>s.strip()\<close> removes leading and trailing whitespace.\<close>

definition strip :: "pystr \<Rightarrow> pystr" where
  "strip s = rev (dropWhile isspace (rev (dropWhile isspace s)))"

text \<open>\<open>re.sub(r'\s+', ' ', s)\<close>: every maximal run of whitespace becomes one space.\<close>

function re_sub_spaces :: "pystr \<Rightarrow> pystr" where
  "re_sub_spaces [] = []"
| "re_sub_spaces (c # cs) =
     (if isspace c then 32 # re_sub_spaces (dropWhile isspace cs) else c # re_sub_spaces cs)"
  by pat_completeness auto
termination
  by (relation "measure length") (auto simp: less_Suc_eq_le length_dropWhile_le)

text \<open>
  \<open>s.split()\<close> without arguments: the maximal runs of non-whitespace, in order; leading and
  trailing whitespace yields no empty string.
\<close>

function split :: "pystr \<Rightarrow> pystr list" where
  "split s =
     (case dropWhile isspace s of
        [] \<Rightarrow> []
      | c # cs \<Rightarrow> takeWhile (\<lambda>x. \<not> isspace x) (c # cs) # split (dropWhile (\<lambda>x. \<not> isspace x) cs))"
  by pat_completeness auto
termination
proof (relation "measure length", simp)
  fix s :: pystr and c cs
  assume "dropWhile isspace s = c # cs"
  then have "length (c # cs) \<le> length s"
    by (metis length_dropWhile_le)
  moreover have "length (dropWhile (\<lambda>x. \<not> isspace x) cs) \<le> length cs"
    by (rule length_dropWhile_le)
  ultimately show "(dropWhile (\<lambda>x. \<not> isspace x) cs, s) \<in> measure length"
    by simp
qed

declare split.simps [simp del]

subsection \<open>Double precision\<close>

text \<open>
  A double has a significand of 53 bits, and an operation returns the double nearest to its
  exact result, the one with an even significand when two are equally near. \<open>round_even\<close>
  rounds to the nearest integer in that way. For \<open>x > 0\<close>, \<open>exp_up x\<close> and \<open>exp_down x\<close> count
  the doublings and halvings that bring \<open>x\<close> into \<open>[2^52, 2^53)\<close>, where the doubles are the
  integers; \<open>fl x\<close> scales \<open>x\<close> there, rounds, and scales back.

  The exponent range is not bounded in the model: an operation whose result has a magnitude
  of \<open>2^1024\<close> or more (overflow to an infinity) or below \<open>2^-1022\<close> (a subnormal, with fewer
  bits) is outside it.
\<close>

definition round_even :: "rat \<Rightarrow> int" where
  "round_even x =
     (let f = \<lfloor>x\<rfloor>; d = x - of_int f
      in if d < 1 / 2 then f else if 1 / 2 < d then f + 1 else if even f then f else f + 1)"

function exp_up :: "rat \<Rightarrow> nat" where
  "exp_up x = (if 0 < x \<and> x < 2 ^ 52 then Suc (exp_up (2 * x)) else 0)"
  by pat_completeness auto
termination
proof (relation "measure (\<lambda>x. nat \<lceil>2 ^ 52 / x\<rceil>)")
  show "wf (measure (\<lambda>x :: rat. nat \<lceil>2 ^ 52 / x\<rceil>))" by simp
next
  fix x :: rat
  assume "0 < x \<and> x < 2 ^ 52"
  then have "1 < 2 ^ 52 / x" by simp
  then have c: "2 \<le> \<lceil>2 ^ 52 / x\<rceil>" by linarith
  have "2 ^ 52 / x / 2 \<le> of_int \<lceil>2 ^ 52 / x\<rceil> / 2" by (simp add: divide_right_mono)
  also have "\<dots> \<le> of_int (\<lceil>2 ^ 52 / x\<rceil> - 1)" using c by simp
  finally have "\<lceil>2 ^ 52 / x / 2\<rceil> \<le> \<lceil>2 ^ 52 / x\<rceil> - 1" by (rule ceiling_le)
  with c have "nat \<lceil>2 ^ 52 / x / 2\<rceil> < nat \<lceil>2 ^ 52 / x\<rceil>" by linarith
  moreover have "2 ^ 52 / (2 * x) = 2 ^ 52 / x / 2" by simp
  ultimately show "(2 * x, x) \<in> measure (\<lambda>x. nat \<lceil>2 ^ 52 / x\<rceil>)"
    by (simp only: in_measure)
qed

declare exp_up.simps [simp del]

function exp_down :: "rat \<Rightarrow> nat" where
  "exp_down x = (if 2 ^ 53 \<le> x then Suc (exp_down (x / 2)) else 0)"
  by pat_completeness auto
termination
proof (relation "measure (\<lambda>x. nat \<lceil>x\<rceil>)")
  show "wf (measure (\<lambda>x :: rat. nat \<lceil>x\<rceil>))" by simp
next
  fix x :: rat
  assume "2 ^ 53 \<le> x"
  then have "1 < x" by simp
  then have c: "2 \<le> \<lceil>x\<rceil>" by linarith
  have "x / 2 \<le> of_int \<lceil>x\<rceil> / 2" by (simp add: divide_right_mono)
  also have "\<dots> \<le> of_int (\<lceil>x\<rceil> - 1)" using c by simp
  finally have "\<lceil>x / 2\<rceil> \<le> \<lceil>x\<rceil> - 1" by (rule ceiling_le)
  with c have "nat \<lceil>x / 2\<rceil> < nat \<lceil>x\<rceil>" by linarith
  then show "(x / 2, x) \<in> measure (\<lambda>x. nat \<lceil>x\<rceil>)"
    by (simp only: in_measure)
qed

declare exp_down.simps [simp del]

definition fl :: "rat \<Rightarrow> rat" where
  "fl x =
     (if x = 0 then 0
      else
        (let a = \<bar>x\<bar>; u = exp_up a; d = exp_down a
         in sgn x * (of_int (round_even (a * 2 ^ u / 2 ^ d)) * 2 ^ d / 2 ^ u)))"

text \<open>
  A float that is passed in from outside may also be an infinity or nan. \<open>x / d\<close> and
  \<open>x * n\<close> for a float \<open>x\<close> and ints \<open>d\<close>, \<open>n\<close> convert the int to a float first; \<open>int(x)\<close>
  raises \<open>OverflowError\<close> for an infinity and \<open>ValueError\<close> for nan.
\<close>

datatype pyfloat = Finite rat | PosInf | NegInf | NaN

definition float_truediv :: "pyfloat \<Rightarrow> int \<Rightarrow> py_error + pyfloat" where
  "float_truediv x d =
     (if d = 0 then Inl ZeroDivisionError
      else case x of
        Finite a \<Rightarrow> Inr (Finite (fl (a / fl (of_int d))))
      | PosInf \<Rightarrow> Inr (if 0 < d then PosInf else NegInf)
      | NegInf \<Rightarrow> Inr (if 0 < d then NegInf else PosInf)
      | NaN \<Rightarrow> Inr NaN)"

definition float_mul :: "pyfloat \<Rightarrow> int \<Rightarrow> pyfloat" where
  "float_mul x n =
     (case x of
        Finite a \<Rightarrow> Finite (fl (a * fl (of_int n)))
      | PosInf \<Rightarrow> (if n = 0 then NaN else if 0 < n then PosInf else NegInf)
      | NegInf \<Rightarrow> (if n = 0 then NaN else if 0 < n then NegInf else PosInf)
      | NaN \<Rightarrow> NaN)"

definition float_to_int :: "pyfloat \<Rightarrow> py_error + int" where
  "float_to_int x =
     (case x of
        Finite a \<Rightarrow> Inr (py_int a)
      | PosInf \<Rightarrow> Inl OverflowError
      | NegInf \<Rightarrow> Inl OverflowError
      | NaN \<Rightarrow> Inl ValueError)"

section \<open>Text processing (rsvp/core/text\_processor.py)\<close>

record Word =
  text_w :: pystr
  orp_index :: int
  pause_after :: rat

definition before_orp :: "Word \<Rightarrow> pystr" where
  "before_orp w = py_slice_to (text_w w) (orp_index w)"

definition orp_char :: "Word \<Rightarrow> py_error + pystr" where
  "orp_char w =
     (if orp_index w < int (length (text_w w))
      then (case py_index (text_w w) (orp_index w) of Inl err \<Rightarrow> Inl err | Inr c \<Rightarrow> Inr [c])
      else Inr [])"

definition after_orp :: "Word \<Rightarrow> pystr" where
  "after_orp w =
     (if orp_index w < int (length (text_w w)) then py_slice_from (text_w w) (orp_index w + 1)
      else [])"

definition calculate_orp :: "pystr \<Rightarrow> int" where
  "calculate_orp word =
     (let length = length word in
      if length \<le> 1 then 0
      else if length \<le> 3 then 0
      else if length \<le> 5 then 1
      else if length \<le> 9 then 2
      else if length \<le> 13 then 3
      else 4)"

definition calculate_pause_multiplier :: "pystr \<Rightarrow> py_error + rat" where
  "calculate_pause_multiplier word =
     (if word = [] then Inr 1
      else case py_index word (- 1) of
        Inl err \<Rightarrow> Inl err
      | Inr last_char \<Rightarrow>
          if last_char \<in> set (py ''.!?'') then Inr (5 / 2)
          else if last_char \<in> set (py '',;:'') then Inr (3 / 2)
          else if last_char \<in> set (py [CHR 0x22, CHR 0x27, CHR '')'']) then
            (if length word > 1 then
               (case py_index word (- 2) of
                  Inl err \<Rightarrow> Inl err
                | Inr c \<Rightarrow> if c \<in> set (py ''.!?'') then Inr (5 / 2) else Inr (6 / 5))
             else Inr (6 / 5))
          else Inr 1)"

text \<open>
  The loop of \<open>process_text\<close> over the raw words; \<open>words\<close> is the list built so far.
\<close>

fun process_words :: "pystr list \<Rightarrow> Word list \<Rightarrow> py_error + Word list" where
  "process_words [] words = Inr words"
| "process_words (raw_word # rest) words =
     (if raw_word \<noteq> [] then
        (let orp = calculate_orp raw_word in
         case calculate_pause_multiplier raw_word of
           Inl err \<Rightarrow> Inl err
         | Inr pause \<Rightarrow>
             process_words rest
               (words @ [\<lparr>text_w = raw_word, orp_index = orp, pause_after = pause\<rparr>]))
      else process_words rest words)"

definition process_text :: "pystr \<Rightarrow> py_error + Word list" where
  "process_text text0 =
     (let text1 = re_sub_spaces (strip text0) in
      if text1 = [] then Inr [] else process_words (split text1) [])"

section \<open>Playback engine (rsvp/core/rsvp\_engine.py)\<close>

record RSVPState =
  words :: "Word list"
  current_index :: int
  wpm :: int
  is_playing :: bool

definition current_word :: "RSVPState \<Rightarrow> Word option" where
  "current_word st =
     (if 0 \<le> current_index st \<and> current_index st < int (length (words st))
      then Some (words st ! nat (current_index st)) else None)"

definition progress :: "RSVPState \<Rightarrow> rat" where
  "progress st =
     (if words st = [] then 0
      else fl (fl (of_int (current_index st) / of_nat (length (words st))) * 100))"

text \<open>
  The signals of the engine. Emitting a signal is recorded, in order, in the field
  \<open>emitted\<close>; the slots connected by the user interface are outside the engine.
\<close>

datatype signal =
  word_changed "Word option"
| state_changed
| progress_changed rat
| finished

text \<open>The \<open>QTimer\<close> owned by the engine: whether it is running, and its interval in ms.\<close>

record QTimer =
  active :: bool
  interval :: int

record RSVPEngine =
  state :: RSVPState
  timer :: QTimer
  emitted :: "signal list"

definition RSVPEngine_init :: RSVPEngine where
  "RSVPEngine_init =
     \<lparr>state = \<lparr>words = [], current_index = 0, wpm = 300, is_playing = False\<rparr>,
      timer = \<lparr>active = False, interval = 0\<rparr>,
      emitted = []\<rparr>"

definition emit :: "signal \<Rightarrow> RSVPEngine \<Rightarrow> RSVPEngine" where
  "emit sig e = e\<lparr>emitted := emitted e @ [sig]\<rparr>"

definition timer_start :: "RSVPEngine \<Rightarrow> RSVPEngine" where
  "timer_start e = e\<lparr>timer := (timer e)\<lparr>active := True\<rparr>\<rparr>"

definition timer_stop :: "RSVPEngine \<Rightarrow> RSVPEngine" where
  "timer_stop e = e\<lparr>timer := (timer e)\<lparr>active := False\<rparr>\<rparr>"

definition timer_setInterval :: "int \<Rightarrow> RSVPEngine \<Rightarrow> RSVPEngine" where
  "timer_setInterval msec e = e\<lparr>timer := (timer e)\<lparr>interval := msec\<rparr>\<rparr>"

definition set_is_playing :: "bool \<Rightarrow> RSVPEngine \<Rightarrow> RSVPEngine" where
  "set_is_playing b e = e\<lparr>state := (state e)\<lparr>is_playing := b\<rparr>\<rparr>"

definition set_current_index :: "int \<Rightarrow> RSVPEngine \<Rightarrow> RSVPEngine" where
  "set_current_index i e = e\<lparr>state := (state e)\<lparr>current_index := i\<rparr>\<rparr>"

text \<open>
  \<open>_update_timer_interval\<close>; the division raises when \<open>wpm\<close> is zero. The quotient of the two
  ints and its product with the word's \<open>pause_after\<close> are doubles.
\<close>

definition update_timer_interval :: "RSVPEngine \<Rightarrow> py_error + RSVPEngine" where
  "update_timer_interval e =
     (if wpm (state e) = 0 then Inl ZeroDivisionError
      else
        (let base_interval = fl (60000 / of_int (wpm (state e)));
             current = current_word (state e);
             interval_ms = (case current of
                              Some w \<Rightarrow> fl (base_interval * fl (pause_after w))
                            | None \<Rightarrow> base_interval)
         in Inr (timer_setInterval (py_int interval_ms) e)))"

text \<open>The setter of the property \<open>wpm\<close>.\<close>

definition set_wpm :: "int \<Rightarrow> RSVPEngine \<Rightarrow> py_error + RSVPEngine" where
  "set_wpm v e =
     (let e1 = e\<lparr>state := (state e)\<lparr>wpm := max 50 (min 2000 v)\<rparr>\<rparr>
      in if is_playing (state e1) then update_timer_interval e1 else Inr e1)"

definition pause :: "RSVPEngine \<Rightarrow> RSVPEngine" where
  "pause e = emit state_changed (timer_stop (set_is_playing False e))"

definition stop :: "RSVPEngine \<Rightarrow> RSVPEngine" where
  "stop e =
     (let e1 = set_is_playing False e;
          e2 = timer_stop e1;
          e3 = set_current_index 0 e2;
          e4 = emit state_changed e3;
          e5 = emit (progress_changed 0) e4
      in if words (state e5) \<noteq> [] then emit (word_changed (current_word (state e5))) e5
         else e5)"

definition load_text :: "pystr \<Rightarrow> RSVPEngine \<Rightarrow> py_error + RSVPEngine" where
  "load_text text0 e =
     (let e1 = stop e in
      case process_text text0 of
        Inl err \<Rightarrow> Inl err
      | Inr ws \<Rightarrow>
          (let e2 = e1\<lparr>state := (state e1)\<lparr>words := ws\<rparr>\<rparr>;
               e3 = set_current_index 0 e2;
               e4 = emit state_changed e3;
               e5 = emit (progress_changed 0) e4
           in if words (state e5) \<noteq> []
              then Inr (emit (word_changed (current_word (state e5))) e5)
              else Inr (emit (word_changed None) e5)))"

definition play :: "RSVPEngine \<Rightarrow> py_error + RSVPEngine" where
  "play e =
     (if words (state e) = [] then Inr e
      else
        (let e1 = (if current_index (state e) \<ge> int (length (words (state e))) - 1
                   then set_current_index 0 e else e);
             e2 = set_is_playing True e1
         in case update_timer_interval e2 of
              Inl err \<Rightarrow> Inl err
            | Inr e3 \<Rightarrow> Inr (emit state_changed (timer_start e3))))"

definition toggle_play_pause :: "RSVPEngine \<Rightarrow> py_error + RSVPEngine" where
  "toggle_play_pause e = (if is_playing (state e) then Inr (pause e) else play e)"

definition seek :: "int \<Rightarrow> RSVPEngine \<Rightarrow> RSVPEngine" where
  "seek index e =
     (if words (state e) = [] then e
      else
        (let e1 = set_current_index (max 0 (min index (int (length (words (state e))) - 1))) e;
             e2 = emit (word_changed (current_word (state e1))) e1
         in emit (progress_changed (progress (state e2))) e2))"

definition seek_percent :: "pyfloat \<Rightarrow> RSVPEngine \<Rightarrow> py_error + RSVPEngine" where
  "seek_percent percent e =
     (if words (state e) = [] then Inr e
      else
        (case float_truediv percent 100 of
           Inl err \<Rightarrow> Inl err
         | Inr q \<Rightarrow>
             (case float_to_int (float_mul q (int (length (words (state e))))) of
                Inl err \<Rightarrow> Inl err
              | Inr index \<Rightarrow> Inr (seek index e))))"

definition skip_forward :: "int \<Rightarrow> RSVPEngine \<Rightarrow> RSVPEngine" where
  "skip_forward n e = seek (current_index (state e) + n) e"

definition skip_backward :: "int \<Rightarrow> RSVPEngine \<Rightarrow> RSVPEngine" where
  "skip_backward n e = seek (current_index (state e) - n) e"

text \<open>The \<open>while idx > 0\<close> loop of \<open>previous_sentence\<close>, with the \<open>seek(0)\<close> after it.\<close>

function previous_sentence_loop :: "RSVPEngine \<Rightarrow> int \<Rightarrow> py_error + RSVPEngine" where
  "previous_sentence_loop e idx =
     (if idx > 0 then
        (case py_index (words (state e)) idx of
           Inl err \<Rightarrow> Inl err
         | Inr word \<Rightarrow>
             (if text_w word \<noteq> [] then
                (case py_index (text_w word) (- 1) of
                   Inl err \<Rightarrow> Inl err
                 | Inr ch \<Rightarrow>
                     if ch \<in> set (py ''.!?'') then Inr (seek (idx + 1) e)
                     else previous_sentence_loop e (idx - 1))
              else previous_sentence_loop e (idx - 1)))
      else Inr (seek 0 e))"
  by pat_completeness auto
termination
  by (relation "measure (\<lambda>(e, idx). nat idx)") auto

declare previous_sentence_loop.simps [simp del]

definition previous_sentence :: "RSVPEngine \<Rightarrow> py_error + RSVPEngine" where
  "previous_sentence e =
     (if words (state e) = [] then Inr e
      else previous_sentence_loop e (max 0 (current_index (state e) - 1)))"

text \<open>
  The \<open>while idx < len(words) - 1\<close> loop of \<open>next_sentence\<close>, with the
  \<open>seek(len(words) - 1)\<close> after it.
\<close>

function next_sentence_loop :: "RSVPEngine \<Rightarrow> int \<Rightarrow> py_error + RSVPEngine" where
  "next_sentence_loop e idx =
     (if idx < int (length (words (state e))) - 1 then
        (case py_index (words (state e)) idx of
           Inl err \<Rightarrow> Inl err
         | Inr word \<Rightarrow>
             (if text_w word \<noteq> [] then
                (case py_index (text_w word) (- 1) of
                   Inl err \<Rightarrow> Inl err
                 | Inr ch \<Rightarrow>
                     if ch \<in> set (py ''.!?'') then Inr (seek (idx + 1) e)
                     else next_sentence_loop e (idx + 1))
              else next_sentence_loop e (idx + 1)))
      else Inr (seek (int (length (words (state e))) - 1) e))"
  by pat_completeness auto
termination
  by (relation "measure (\<lambda>(e, idx). nat (int (length (words (state e))) - 1 - idx))") auto

declare next_sentence_loop.simps [simp del]

definition next_sentence :: "RSVPEngine \<Rightarrow> py_error + RSVPEngine" where
  "next_sentence e =
     (if words (state e) = [] then Inr e
      else next_sentence_loop e (current_index (state e)))"

text \<open>\<open>_advance\<close>, the slot connected to the timer's \<open>timeout\<close>.\<close>

definition advance :: "RSVPEngine \<Rightarrow> py_error + RSVPEngine" where
  "advance e =
     (let e1 = set_current_index (current_index (state e) + 1) e in
      if current_index (state e1) \<ge> int (length (words (state e1))) then
        (let e2 = pause e1;
             e3 = set_current_index (int (length (words (state e2))) - 1) e2
         in Inr (emit finished e3))
      else
        (let e2 = emit (word_changed (current_word (state e1))) e1;
             e3 = emit (progress_changed (progress (state e2))) e2
         in update_timer_interval e3))"

subsection \<open>Runs of the engine\<close>

text \<open>
  What can happen to an engine: a call of one of its public operations, or a tick of its
  timer. A \<open>QTimer\<close> delivers \<open>timeout\<close> to \<open>_advance\<close> only while it is active, so a
  tick at a stopped timer delivers nothing. The percentage of a \<open>SeekPercent\<close> event is a
  finite number, passed as the double nearest to it.
\<close>

datatype event =
  Load pystr
| Play
| Pause
| TogglePlayPause
| Stop
| Seek int
| SeekPercent rat
| SkipForward int
| SkipBackward int
| PreviousSentence
| NextSentence
| SetRate int
| Tick

fun step :: "RSVPEngine \<Rightarrow> event \<Rightarrow> py_error + RSVPEngine" where
  "step e (Load text0) = load_text text0 e"
| "step e Play = play e"
| "step e Pause = Inr (pause e)"
| "step e TogglePlayPause = toggle_play_pause e"
| "step e Stop = Inr (stop e)"
| "step e (Seek index) = Inr (seek index e)"
| "step e (SeekPercent percent) = seek_percent (Finite (fl percent)) e"
| "step e (SkipForward n) = Inr (skip_forward n e)"
| "step e (SkipBackward n) = Inr (skip_backward n e)"
| "step e PreviousSentence = previous_sentence e"
| "step e NextSentence = next_sentence e"
| "step e (SetRate v) = set_wpm v e"
| "step e Tick = (if active (timer e) then advance e else Inr e)"

fun run :: "RSVPEngine \<Rightarrow> event list \<Rightarrow> py_error + RSVPEngine" where
  "run e [] = Inr e"
| "run e (ev # evs) = (case step e ev of Inl err \<Rightarrow> Inl err | Inr e' \<Rightarrow> run e' evs)"

section \<open>Specifications\<close>

text \<open>
  The decomposition of a text into gaps and tokens: \<open>interleave [g0, g1, g2] [t1, t2]\<close>
  is \<open>g0 @ t1 @ g1 @ t2 @ g2\<close>.
\<close>

fun interleave :: "'a list list \<Rightarrow> 'a list list \<Rightarrow> 'a list" where
  "interleave (g # gs) (t # ts) = g @ t @ interleave gs ts"
| "interleave gs [] = concat gs"
| "interleave [] ts = concat ts"

text \<open>
  A word is a sentence terminator when the last character of its text is one of
  \<open>.\<close>, \<open>!\<close>, \<open>?\<close>.
\<close>

definition sentence_terminator :: "Word \<Rightarrow> bool" where
  "sentence_terminator w = (text_w w \<noteq> [] \<and> last (text_w w) \<in> set (py ''.!?''))"

text \<open>
  The target of NextSentence as the specification words it: one past the first index
  \<open>idx\<close> with \<open>cursor \<le> idx < len(words) - 1\<close> whose word is a sentence terminator, and
  \<open>len(words) - 1\<close> when there is none.
\<close>

definition next_sentence_spec :: "Word list \<Rightarrow> int \<Rightarrow> int" where
  "next_sentence_spec ws cursor =
     (case find (\<lambda>idx. sentence_terminator (ws ! nat idx)) [cursor..int (length ws) - 2] of
        Some idx \<Rightarrow> idx + 1
      | None \<Rightarrow> int (length ws) - 1)"

text \<open>
  The interval of a word at a rate, \<open>(60000 / rate) * pauseFactor\<close>, in milliseconds and in the
  arithmetic of the program: the quotient and the product are doubles, and \<open>int\<close> truncates.
  Without a word it is that of the rate alone.
\<close>

definition word_interval :: "int \<Rightarrow> Word option \<Rightarrow> int" where
  "word_interval rate current =
     py_int (case current of
               Some w \<Rightarrow> fl (fl (60000 / of_int rate) * fl (pause_after w))
             | None \<Rightarrow> fl (60000 / of_int rate))"

text \<open>
  The invariant of the engine: the cursor is a valid index (0 when there are no words), the
  timer runs exactly while \<open>is_playing\<close> holds, playing needs words, and the rate is
  between 50 and 2000.
\<close>

definition engine_inv :: "RSVPEngine \<Rightarrow> bool" where
  "engine_inv e =
     ((if words (state e) = [] then current_index (state e) = 0
       else 0 \<le> current_index (state e)
            \<and> current_index (state e) < int (length (words (state e))))
      \<and> active (timer e) = is_playing (state e)
      \<and> (is_playing (state e) \<longrightarrow> words (state e) \<noteq> [])
      \<and> 50 \<le> wpm (state e) \<and> wpm (state e) \<le> 2000)"

section \<open>Properties of the text processing\<close>

lemma py_index_last: "xs \<noteq> [] \<Longrightarrow> py_index xs (- 1) = Inr (last xs)"
  by (cases xs rule: rev_cases) (auto simp: py_index_def Let_def nth_append)

lemma py_index_second_last:
  "1 < length xs \<Longrightarrow> py_index xs (- 2) = Inr (xs ! (length xs - 2))"
  by (auto simp: py_index_def Let_def nat_diff_distrib intro!: arg_cong[where f="nth xs"])

lemma py_index_nat: "0 \<le> i \<Longrightarrow> i < int (length xs) \<Longrightarrow> py_index xs i = Inr (xs ! nat i)"
  by (simp add: py_index_def Let_def)

lemma calculate_pause_multiplier_value:
  "calculate_pause_multiplier word = Inr
     (if word = [] then 1
      else if last word \<in> set (py ''.!?'') then 5 / 2
      else if last word \<in> set (py '',;:'') then 3 / 2
      else if last word \<in> set (py [CHR 0x22, CHR 0x27, CHR '')'']) then
        (if 1 < length word \<and> word ! (length word - 2) \<in> set (py ''.!?'') then 5 / 2 else 6 / 5)
      else 1)"
proof (cases "word = []")
  case True
  then show ?thesis by (simp add: calculate_pause_multiplier_def)
next
  case ne: False
  show ?thesis
  proof (cases "last word \<in> set (py ''.!?'')")
    case True
    with ne show ?thesis by (simp add: calculate_pause_multiplier_def py_index_last)
  next
    case a: False
    show ?thesis
    proof (cases "last word \<in> set (py '',;:'')")
      case True
      with ne a show ?thesis by (simp add: calculate_pause_multiplier_def py_index_last)
    next
      case b: False
      show ?thesis
      proof (cases "last word \<in> set (py [CHR 0x22, CHR 0x27, CHR '')''])")
        case False
        with ne a b show ?thesis by (simp add: calculate_pause_multiplier_def py_index_last)
      next
        case c: True
        show ?thesis
        proof (cases "1 < length word")
          case False
          with ne a b c show ?thesis
            by (simp add: calculate_pause_multiplier_def py_index_last)
        next
          case True
          with ne a b c show ?thesis
            by (simp add: calculate_pause_multiplier_def py_index_last py_index_second_last)
        qed
      qed
    qed
  qed
qed

lemma calculate_pause_multiplier_total: "\<exists>r. calculate_pause_multiplier word = Inr r"
  by (subst calculate_pause_multiplier_value) blast

lemma process_words_result:
  "\<exists>ws. process_words raws acc = Inr (acc @ ws)
      \<and> map text_w ws = filter (\<lambda>r. r \<noteq> []) raws
      \<and> (\<forall>w \<in> set ws. orp_index w = calculate_orp (text_w w)
            \<and> calculate_pause_multiplier (text_w w) = Inr (pause_after w))"
proof (induction raws arbitrary: acc)
  case Nil
  show ?case by simp
next
  case (Cons raw rest)
  show ?case
  proof (cases "raw = []")
    case True
    with Cons.IH [of acc] show ?thesis by simp
  next
    case False
    obtain r where r: "calculate_pause_multiplier raw = Inr r"
      using calculate_pause_multiplier_total by blast
    define w where "w = \<lparr>text_w = raw, orp_index = calculate_orp raw, pause_after = r\<rparr>"
    obtain ws where ws: "process_words rest (acc @ [w]) = Inr ((acc @ [w]) @ ws)"
      "map text_w ws = filter (\<lambda>r. r \<noteq> []) rest"
      "\<forall>w \<in> set ws. orp_index w = calculate_orp (text_w w)
            \<and> calculate_pause_multiplier (text_w w) = Inr (pause_after w)"
      using Cons.IH [of "acc @ [w]"] by blast
    show ?thesis
      by (rule exI [of _ "w # ws"]) (use False r ws in \<open>simp add: w_def\<close>)
  qed
qed

lemma split_Nil:
  assumes "dropWhile isspace s = []"
  shows "split s = []"
  by (subst split.simps) (simp only: assms list.case)

lemma split_Cons:
  "dropWhile isspace s = c # cs \<Longrightarrow>
   split s = takeWhile (\<lambda>x. \<not> isspace x) (c # cs) # split (dropWhile (\<lambda>x. \<not> isspace x) cs)"
  by (subst split.simps) simp

lemma dropWhile_Cons_head: "dropWhile P s = c # cs \<Longrightarrow> \<not> P c"
  by (metis hd_dropWhile list.sel(1) list.distinct(1))

lemma split_all_space: "(split s = []) = (\<forall>c \<in> set s. isspace c)"
proof (cases "dropWhile isspace s")
  case Nil
  then show ?thesis using split_Nil [OF Nil] by (simp add: dropWhile_eq_Nil_conv [symmetric] del: dropWhile_eq_Nil_conv)
next
  case (Cons c cs)
  then have "\<not> (\<forall>c \<in> set s. isspace c)"
    by (metis dropWhile_eq_Nil_conv list.distinct(1))
  with Cons show ?thesis by (simp add: split_Cons)
qed

lemma split_tokens: "t \<in> set (split s) \<Longrightarrow> t \<noteq> [] \<and> (\<forall>c \<in> set t. \<not> isspace c)"
proof (induction s rule: split.induct)
  case (1 s)
  show ?case
  proof (cases "dropWhile isspace s")
    case Nil
    with "1.prems" show ?thesis by (simp add: split_Nil)
  next
    case (Cons c cs)
    then have c: "\<not> isspace c"
      by (rule dropWhile_Cons_head)
    from "1.prems" Cons
    have "t = takeWhile (\<lambda>x. \<not> isspace x) (c # cs) \<or> t \<in> set (split (dropWhile (\<lambda>x. \<not> isspace x) cs))"
      by (simp add: split_Cons)
    then show ?thesis
    proof
      assume t: "t = takeWhile (\<lambda>x. \<not> isspace x) (c # cs)"
      then have "t \<noteq> []" using c by simp
      moreover have "\<forall>c \<in> set t. \<not> isspace c"
        unfolding t using set_takeWhileD by fastforce
      ultimately show ?thesis by simp
    next
      assume "t \<in> set (split (dropWhile (\<lambda>x. \<not> isspace x) cs))"
      with "1.IH" [OF Cons] show ?thesis by simp
    qed
  qed
qed

lemma split_drop_leading: "split (dropWhile isspace s) = split s"
  by (subst (1 2) split.simps) simp

lemma split_space_Cons: "isspace c \<Longrightarrow> split (c # s) = split s"
  by (subst (1 2) split.simps) simp

lemma split_nonspace_Cons:
  "\<not> isspace c \<Longrightarrow>
   split (c # s) = (c # takeWhile (\<lambda>x. \<not> isspace x) s) # split (dropWhile (\<lambda>x. \<not> isspace x) s)"
  by (subst split.simps) simp

lemma takeWhile_none: "\<forall>c \<in> set ws. \<not> P c \<Longrightarrow> takeWhile P ws = []"
  by (cases ws) auto

lemma dropWhile_none: "\<forall>c \<in> set ws. \<not> P c \<Longrightarrow> dropWhile P ws = ws"
  by (cases ws) auto

lemma split_append_spaces:
  "\<forall>c \<in> set ws. isspace c \<Longrightarrow> split (s @ ws) = split s"
proof (induction s rule: length_induct)
  case (1 s)
  assume ws: "\<forall>c \<in> set ws. isspace c"
  have ws_nil: "split ws = []" using ws by (simp add: split_all_space)
  show ?case
  proof (cases s)
    case Nil
    then show ?thesis using ws_nil by (simp add: split_Nil)
  next
    case (Cons c cs)
    show ?thesis
    proof (cases "isspace c")
      case True
      then show ?thesis using 1 Cons ws by (simp add: split_space_Cons)
    next
      case False
      let ?ns = "\<lambda>x. \<not> isspace x"
      show ?thesis
      proof (cases "\<forall>x \<in> set cs. ?ns x")
        case True
        have a: "takeWhile ?ns (cs @ ws) = cs"
          using True ws by (simp add: takeWhile_append2 takeWhile_none)
        have b: "dropWhile ?ns (cs @ ws) = ws"
          using True ws by (simp add: dropWhile_append2 dropWhile_none)
        have c: "takeWhile ?ns cs = cs"
          using True by simp
        have d: "dropWhile ?ns cs = []"
          using True by simp
        have "split (s @ ws) = [c # cs]"
          using False Cons ws_nil by (simp add: split_nonspace_Cons a b)
        moreover have "split s = [c # cs]"
          using False Cons by (simp add: split_nonspace_Cons c d split_Nil)
        ultimately show ?thesis by simp
      next
        case F: False
        then obtain x where x: "x \<in> set cs" "\<not> ?ns x" by blast
        have tw: "takeWhile ?ns (cs @ ws) = takeWhile ?ns cs"
          using x by (rule takeWhile_append1)
        have dw: "dropWhile ?ns (cs @ ws) = dropWhile ?ns cs @ ws"
          using x by (rule dropWhile_append1)
        have "length (dropWhile ?ns cs) < length s"
          using Cons length_dropWhile_le [of ?ns cs] by simp
        with 1 ws have "split (dropWhile ?ns cs @ ws) = split (dropWhile ?ns cs)"
          by blast
        then show ?thesis using False Cons tw dw
          by (simp add: split_nonspace_Cons)
      qed
    qed
  qed
qed

lemma strip_tail: "\<exists>ws. (\<forall>c \<in> set ws. isspace c) \<and> dropWhile isspace s = strip s @ ws"
proof -
  let ?d = "dropWhile isspace s"
  have "rev ?d = takeWhile isspace (rev ?d) @ dropWhile isspace (rev ?d)"
    by simp
  then have "?d = strip s @ rev (takeWhile isspace (rev ?d))"
    unfolding strip_def by (metis rev_append rev_rev_ident)
  moreover have "\<forall>c \<in> set (rev (takeWhile isspace (rev ?d))). isspace c"
    by (auto dest: set_takeWhileD)
  ultimately show ?thesis by blast
qed

lemma split_strip: "split (strip s) = split s"
proof -
  obtain ws where ws: "\<forall>c \<in> set ws. isspace c" "dropWhile isspace s = strip s @ ws"
    using strip_tail by blast
  have "split s = split (dropWhile isspace s)" by (simp add: split_drop_leading)
  also have "\<dots> = split (strip s)" using ws by (simp add: split_append_spaces)
  finally show ?thesis by simp
qed

lemma dropWhile_re_sub_spaces:
  "dropWhile (\<lambda>x. \<not> isspace x) (re_sub_spaces s) = re_sub_spaces (dropWhile (\<lambda>x. \<not> isspace x) s)"
  by (induction s) (auto simp: isspace_def)

lemma takeWhile_re_sub_spaces:
  "takeWhile (\<lambda>x. \<not> isspace x) (re_sub_spaces s) = takeWhile (\<lambda>x. \<not> isspace x) s"
  by (induction s) (auto simp: isspace_def)

lemma split_re_sub_spaces: "split (re_sub_spaces s) = split s"
proof (induction s rule: length_induct)
  case (1 s)
  show ?case
  proof (cases s)
    case Nil
    then show ?thesis by simp
  next
    case (Cons c cs)
    show ?thesis
    proof (cases "isspace c")
      case True
      have sp: "isspace 32" by (simp add: isspace_def)
      have "length (dropWhile isspace cs) < length s"
        using Cons length_dropWhile_le [of isspace cs] by simp
      with 1 have "split (re_sub_spaces (dropWhile isspace cs)) = split (dropWhile isspace cs)"
        by blast
      then show ?thesis using True Cons sp
        by (simp add: split_space_Cons split_drop_leading)
    next
      case False
      let ?ns = "\<lambda>x. \<not> isspace x"
      have "length (dropWhile ?ns cs) < length s"
        using Cons length_dropWhile_le [of ?ns cs] by simp
      with 1 have "split (re_sub_spaces (dropWhile ?ns cs)) = split (dropWhile ?ns cs)"
        by blast
      then show ?thesis using False Cons
        by (simp add: split_nonspace_Cons dropWhile_re_sub_spaces takeWhile_re_sub_spaces)
    qed
  qed
qed

lemma re_sub_spaces_Nil: "(re_sub_spaces s = []) = (s = [])"
  by (cases s) auto

lemma strip_Nil: "(strip s = []) = (\<forall>c \<in> set s. isspace c)"
proof
  assume "strip s = []"
  then have "split s = []" using split_strip [of s] by (simp add: split_Nil)
  then show "\<forall>c \<in> set s. isspace c" by (simp add: split_all_space)
next
  assume "\<forall>c \<in> set s. isspace c"
  then have "dropWhile isspace s = []" by simp
  then show "strip s = []" unfolding strip_def by (simp del: dropWhile_eq_Nil_conv)
qed

lemma filter_split: "filter (\<lambda>r. r \<noteq> []) (split s) = split s"
  using split_tokens [of _ s] by (simp add: filter_id_conv)

lemma process_text_result:
  "\<exists>ws. process_text s = Inr ws \<and> map text_w ws = split s
      \<and> (\<forall>w \<in> set ws. orp_index w = calculate_orp (text_w w)
            \<and> calculate_pause_multiplier (text_w w) = Inr (pause_after w))"
proof (cases "re_sub_spaces (strip s) = []")
  case True
  then have "split s = []"
    by (simp add: re_sub_spaces_Nil strip_Nil split_all_space)
  with True show ?thesis by (simp add: process_text_def)
next
  case False
  have sp: "split (re_sub_spaces (strip s)) = split s"
    by (simp add: split_re_sub_spaces split_strip)
  from process_words_result [of "split (re_sub_spaces (strip s))" "[]"] False
  show ?thesis
    by (simp add: process_text_def sp filter_split)
qed

lemma split_gaps:
  "\<exists>gaps. length gaps = length (split s) + 1
      \<and> hd gaps = takeWhile isspace s
      \<and> (\<forall>g \<in> set gaps. \<forall>c \<in> set g. isspace c)
      \<and> (\<forall>g \<in> set (butlast (tl gaps)). g \<noteq> [])
      \<and> interleave gaps (split s) = s"
proof (induction s rule: split.induct)
  case (1 s)
  let ?ns = "\<lambda>x. \<not> isspace x"
  show ?case
  proof (cases "dropWhile isspace s")
    case Nil
    then have all: "\<forall>c \<in> set s. isspace c" by simp
    then have tw: "takeWhile isspace s = s" by simp
    show ?thesis
      by (rule exI [of _ "[s]"]) (use all in \<open>simp add: split_Nil [OF Nil] tw\<close>)
  next
    case (Cons c cs)
    let ?rest = "dropWhile ?ns cs"
    have c: "\<not> isspace c" using Cons by (rule dropWhile_Cons_head)
    obtain gaps where g: "length gaps = length (split ?rest) + 1"
      "hd gaps = takeWhile isspace ?rest"
      "\<forall>g \<in> set gaps. \<forall>c \<in> set g. isspace c"
      "\<forall>g \<in> set (butlast (tl gaps)). g \<noteq> []"
      "interleave gaps (split ?rest) = ?rest"
      using "1.IH" [OF Cons] by blast
    obtain g0 gs where gaps: "gaps = g0 # gs"
      using g(1) by (cases gaps) auto
    have s: "s = takeWhile isspace s @ takeWhile ?ns (c # cs) @ ?rest"
      using Cons c by (metis takeWhile_dropWhile_id dropWhile.simps(2))
    have inner: "gs \<noteq> [] \<Longrightarrow> g0 \<noteq> []"
    proof -
      assume "gs \<noteq> []"
      then have "split ?rest \<noteq> []" using g(1) gaps by auto
      then obtain x where "x \<in> set ?rest" by (auto simp: split_all_space)
      then obtain y ys where r: "?rest = y # ys" by (cases ?rest) auto
      then have "isspace y" using dropWhile_Cons_head [OF r] by simp
      then show "g0 \<noteq> []" using g(2) gaps r by simp
    qed
    let ?gaps = "takeWhile isspace s # gaps"
    have "length ?gaps = length (split s) + 1"
      using g(1) by (simp add: split_Cons [OF Cons])
    moreover have "hd ?gaps = takeWhile isspace s" by simp
    moreover have "\<forall>g \<in> set ?gaps. \<forall>c \<in> set g. isspace c"
      using g(3) by (auto dest: set_takeWhileD)
    moreover have "\<forall>g \<in> set (butlast (tl ?gaps)). g \<noteq> []"
      using g(4) inner gaps by (auto split: if_splits)
    moreover have "interleave ?gaps (split s) = s"
      using g(5) s by (simp add: split_Cons [OF Cons] gaps)
    ultimately show ?thesis by blast
  qed
qed

lemma split_Nil_eq: "split [] = []"
  by (simp add: split_Nil)

lemmas split_eval = split_Nil_eq split_space_Cons split_nonspace_Cons

lemmas text_eval = process_text_def py_def strip_def isspace_def split_eval
  calculate_orp_def calculate_pause_multiplier_def py_index_def

lemma process_text_word:
  assumes "process_text s = Inr ws" "w \<in> set ws"
  shows "text_w w \<in> set (split s)"
    and "orp_index w = calculate_orp (text_w w)"
    and "calculate_pause_multiplier (text_w w) = Inr (pause_after w)"
proof -
  obtain ws' where ws': "process_text s = Inr ws'" "map text_w ws' = split s"
    "\<forall>w \<in> set ws'. orp_index w = calculate_orp (text_w w)
        \<and> calculate_pause_multiplier (text_w w) = Inr (pause_after w)"
    using process_text_result by blast
  with assms have eq: "ws' = ws" by simp
  from assms(2) have "text_w w \<in> set (map text_w ws')" unfolding eq by simp
  then show "text_w w \<in> set (split s)" unfolding ws'(2) .
  show "orp_index w = calculate_orp (text_w w)" using ws'(3) eq assms(2) by blast
  show "calculate_pause_multiplier (text_w w) = Inr (pause_after w)"
    using ws'(3) eq assms(2) by blast
qed

lemma calculate_orp_mono: "length a \<le> length b \<Longrightarrow> calculate_orp a \<le> calculate_orp b"
  by (simp add: calculate_orp_def Let_def)

lemma calculate_orp_bound: "word \<noteq> [] \<Longrightarrow> 0 \<le> calculate_orp word \<and> calculate_orp word < int (length word)"
  by (cases word) (simp_all add: calculate_orp_def Let_def)

section \<open>The claims about the tokenizer\<close>

text \<open>
  Claim C7. Every word produced by \<open>process_text\<close> has a non-empty text, and its
  \<open>orp_index\<close> is given by the length \<open>L\<close> of its text alone: 0 for \<open>L \<le> 3\<close>, 1 for
  \<open>4 \<le> L \<le> 5\<close>, 2 for \<open>6 \<le> L \<le> 9\<close>, 3 for \<open>10 \<le> L \<le> 13\<close>, 4 for \<open>L \<ge> 14\<close>. It is
  monotonic in \<open>L\<close> (for any two produced words, of the same or of different texts) and less
  than \<open>L\<close>. Its \<open>pause_after\<close> is given by the last character: 2.5 after \<open>.\<close>, \<open>!\<close>,
  \<open>?\<close>; 1.5 after \<open>,\<close>, \<open>;\<close>, \<open>:\<close>; after a double quote, a single quote or \<open>)\<close> it is
  2.5 when the character before it is one of \<open>.\<close>, \<open>!\<close>, \<open>?\<close> and 1.2 otherwise; and 1.0
  after any other character.
\<close>

theorem tokenize_focus_and_pause:
  assumes "process_text s = Inr ws" and "w \<in> set ws"
    and "process_text s' = Inr ws'" and "w' \<in> set ws'"
  shows "text_w w \<noteq> []
    \<and> (length (text_w w) \<le> 3 \<longrightarrow> orp_index w = 0)
    \<and> (4 \<le> length (text_w w) \<and> length (text_w w) \<le> 5 \<longrightarrow> orp_index w = 1)
    \<and> (6 \<le> length (text_w w) \<and> length (text_w w) \<le> 9 \<longrightarrow> orp_index w = 2)
    \<and> (10 \<le> length (text_w w) \<and> length (text_w w) \<le> 13 \<longrightarrow> orp_index w = 3)
    \<and> (14 \<le> length (text_w w) \<longrightarrow> orp_index w = 4)
    \<and> (length (text_w w) \<le> length (text_w w') \<longrightarrow> orp_index w \<le> orp_index w')
    \<and> orp_index w < int (length (text_w w))
    \<and> (last (text_w w) \<in> set (py ''.!?'') \<longrightarrow> pause_after w = 5 / 2)
    \<and> (last (text_w w) \<in> set (py '',;:'') \<longrightarrow> pause_after w = 3 / 2)
    \<and> (last (text_w w) \<in> set (py [CHR 0x22, CHR 0x27, CHR '')'']) \<longrightarrow>
          pause_after w =
            (if 1 < length (text_w w)
                \<and> text_w w ! (length (text_w w) - 2) \<in> set (py ''.!?'')
             then 5 / 2 else 6 / 5))
    \<and> (last (text_w w) \<notin> set (py ''.!?'') \<and> last (text_w w) \<notin> set (py '',;:'')
          \<and> last (text_w w) \<notin> set (py [CHR 0x22, CHR 0x27, CHR '')'']) \<longrightarrow>
          pause_after w = 1)"
proof -
  note w = process_text_word [OF assms(1,2)]
  note w' = process_text_word [OF assms(3,4)]
  have ne: "text_w w \<noteq> []" using w(1) split_tokens by blast
  have orp: "orp_index w = calculate_orp (text_w w)" by (rule w(2))
  have table: "(length (text_w w) \<le> 3 \<longrightarrow> orp_index w = 0)
    \<and> (4 \<le> length (text_w w) \<and> length (text_w w) \<le> 5 \<longrightarrow> orp_index w = 1)
    \<and> (6 \<le> length (text_w w) \<and> length (text_w w) \<le> 9 \<longrightarrow> orp_index w = 2)
    \<and> (10 \<le> length (text_w w) \<and> length (text_w w) \<le> 13 \<longrightarrow> orp_index w = 3)
    \<and> (14 \<le> length (text_w w) \<longrightarrow> orp_index w = 4)"
    unfolding orp by (simp add: calculate_orp_def Let_def)
  have mono: "length (text_w w) \<le> length (text_w w') \<longrightarrow> orp_index w \<le> orp_index w'"
    unfolding orp w'(2) by (simp add: calculate_orp_mono)
  have bound: "orp_index w < int (length (text_w w))"
    unfolding orp using calculate_orp_bound [OF ne] by simp
  have disj: "set (py ''.!?'') \<inter> set (py '',;:'') = {}"
    "set (py ''.!?'') \<inter> set (py [CHR 0x22, CHR 0x27, CHR '')'']) = {}"
    "set (py '',;:'') \<inter> set (py [CHR 0x22, CHR 0x27, CHR '')'']) = {}"
    by (simp_all add: py_def)
  have "Inr (pause_after w) = calculate_pause_multiplier (text_w w)"
    using w(3) by simp
  then have pv: "pause_after w =
     (if last (text_w w) \<in> set (py ''.!?'') then 5 / 2
      else if last (text_w w) \<in> set (py '',;:'') then 3 / 2
      else if last (text_w w) \<in> set (py [CHR 0x22, CHR 0x27, CHR '')'']) then
        (if 1 < length (text_w w) \<and> text_w w ! (length (text_w w) - 2) \<in> set (py ''.!?'')
         then 5 / 2 else 6 / 5)
      else 1)"
    using ne by (simp add: calculate_pause_multiplier_value)
  have p1: "last (text_w w) \<in> set (py ''.!?'') \<longrightarrow> pause_after w = 5 / 2"
    using pv by simp
  have p2: "last (text_w w) \<in> set (py '',;:'') \<longrightarrow> pause_after w = 3 / 2"
    using pv disj(1) by auto
  have p3: "last (text_w w) \<in> set (py [CHR 0x22, CHR 0x27, CHR '')'']) \<longrightarrow>
          pause_after w =
            (if 1 < length (text_w w)
                \<and> text_w w ! (length (text_w w) - 2) \<in> set (py ''.!?'')
             then 5 / 2 else 6 / 5)"
  proof
    assume a: "last (text_w w) \<in> set (py [CHR 0x22, CHR 0x27, CHR '')''])"
    then have "last (text_w w) \<notin> set (py ''.!?'')" "last (text_w w) \<notin> set (py '',;:'')"
      using disj by blast+
    with a pv show "pause_after w =
            (if 1 < length (text_w w)
                \<and> text_w w ! (length (text_w w) - 2) \<in> set (py ''.!?'')
             then 5 / 2 else 6 / 5)" by simp
  qed
  have p4: "last (text_w w) \<notin> set (py ''.!?'') \<and> last (text_w w) \<notin> set (py '',;:'')
          \<and> last (text_w w) \<notin> set (py [CHR 0x22, CHR 0x27, CHR '')'']) \<longrightarrow>
          pause_after w = 1"
    using pv by simp
  from ne table mono bound p1 p2 p3 p4 show ?thesis by blast
qed


text \<open>The hypotheses of C7 hold for the two words of \<open>Hello. you\<close>.\<close>

theorem tokenize_focus_and_pause_witness:
  "process_text (py ''Hello. you'') =
     Inr [\<lparr>text_w = py ''Hello.'', orp_index = 2, pause_after = 5 / 2\<rparr>,
          \<lparr>text_w = py ''you'', orp_index = 0, pause_after = 1\<rparr>]
   \<and> orp_index \<lparr>text_w = py ''you'', orp_index = 0, pause_after = 1\<rparr>
       \<le> orp_index \<lparr>text_w = py ''Hello.'', orp_index = 2, pause_after = 5 / 2\<rparr>
   \<and> pause_after \<lparr>text_w = py ''you'', orp_index = 0, pause_after = 1\<rparr> = 1"
proof -
  let ?a = "\<lparr>text_w = py ''Hello.'', orp_index = 2, pause_after = 5 / 2\<rparr>"
  let ?b = "\<lparr>text_w = py ''you'', orp_index = 0, pause_after = 1\<rparr>"
  have h: "process_text (py ''Hello. you'') = Inr [?a, ?b]"
    by (simp add: text_eval)
  have a: "?a \<in> set [?a, ?b]" and b: "?b \<in> set [?a, ?b]"
    by simp_all
  from tokenize_focus_and_pause [OF h b h a] h show ?thesis
    by (simp add: py_def)
qed

text \<open>
  Claim C8. For every input, \<open>process_text\<close> returns a list of words and raises nothing.
  The list is empty exactly when every character of the input is whitespace. Every word has a
  non-empty text without whitespace, and the texts are the maximal whitespace-separated
  tokens of the input in their order: the input is \<open>g0 t1 g1 ... tn gn\<close>, where the \<open>ti\<close> are
  the texts, every gap \<open>gi\<close> consists of whitespace, and the gaps between two tokens are not
  empty.
\<close>

theorem tokenize_total:
  "\<exists>ws. process_text s = Inr ws
     \<and> ((ws = []) = (\<forall>c \<in> set s. isspace c))
     \<and> (\<forall>w \<in> set ws. text_w w \<noteq> [] \<and> (\<forall>c \<in> set (text_w w). \<not> isspace c))
     \<and> (\<exists>gaps. length gaps = length ws + 1
           \<and> (\<forall>g \<in> set gaps. \<forall>c \<in> set g. isspace c)
           \<and> (\<forall>g \<in> set (butlast (tl gaps)). g \<noteq> [])
           \<and> interleave gaps (map text_w ws) = s)"
proof -
  obtain ws where ws: "process_text s = Inr ws" "map text_w ws = split s"
    using process_text_result by blast
  have "(ws = []) = (split s = [])"
    using ws(2) by (metis map_is_Nil_conv)
  then have empty: "(ws = []) = (\<forall>c \<in> set s. isspace c)"
    by (simp add: split_all_space)
  have tokens: "\<forall>w \<in> set ws. text_w w \<noteq> [] \<and> (\<forall>c \<in> set (text_w w). \<not> isspace c)"
  proof
    fix w assume "w \<in> set ws"
    then have "text_w w \<in> set (split s)"
      using process_text_word(1) [OF ws(1)] by blast
    then show "text_w w \<noteq> [] \<and> (\<forall>c \<in> set (text_w w). \<not> isspace c)"
      by (rule split_tokens)
  qed
  have len: "length (split s) = length ws"
    using ws(2) by (metis length_map)
  obtain gaps where "length gaps = length (split s) + 1"
    "\<forall>g \<in> set gaps. \<forall>c \<in> set g. isspace c"
    "\<forall>g \<in> set (butlast (tl gaps)). g \<noteq> []"
    "interleave gaps (split s) = s"
    using split_gaps [of s] by blast
  then have "\<exists>gaps. length gaps = length ws + 1
           \<and> (\<forall>g \<in> set gaps. \<forall>c \<in> set g. isspace c)
           \<and> (\<forall>g \<in> set (butlast (tl gaps)). g \<noteq> [])
           \<and> interleave gaps (map text_w ws) = s"
    unfolding ws(2) len by blast
  with ws(1) empty tokens show ?thesis by blast
qed

text \<open>C8 at an input with leading, repeated and trailing spaces.\<close>

theorem tokenize_total_witness:
  "\<exists>ws. process_text (py '' Hello   world '') = Inr ws \<and> ws \<noteq> []
     \<and> (\<forall>w \<in> set ws. text_w w \<noteq> [])"
  using tokenize_total [of "py '' Hello   world ''"]
  by (auto simp: py_def isspace_def)

text \<open>
  Claim C10. For every word \<open>w\<close> produced by \<open>process_text\<close>, \<open>0 \<le> orp_index < len(text)\<close>,
  \<open>orp_char\<close> is a single character, and \<open>before_orp + orp_char + after_orp\<close> is the text.
\<close>

theorem orp_views_reconstruct:
  assumes "process_text s = Inr ws" and "w \<in> set ws"
  shows "0 \<le> orp_index w \<and> orp_index w < int (length (text_w w))
    \<and> (\<exists>c. orp_char w = Inr [c] \<and> before_orp w @ [c] @ after_orp w = text_w w)"
proof -
  note w = process_text_word [OF assms]
  have ne: "text_w w \<noteq> []" using w(1) split_tokens by blast
  have b: "0 \<le> orp_index w" "orp_index w < int (length (text_w w))"
    unfolding w(2) using calculate_orp_bound [OF ne] by simp_all
  then have n: "nat (orp_index w) < length (text_w w)" by simp
  have c: "orp_char w = Inr [text_w w ! nat (orp_index w)]"
    using b by (simp add: orp_char_def py_index_nat)
  have "before_orp w = take (nat (orp_index w)) (text_w w)"
    using b by (simp add: before_orp_def py_slice_to_def)
  moreover have "after_orp w = drop (Suc (nat (orp_index w))) (text_w w)"
    using b by (simp add: after_orp_def py_slice_from_def nat_add_distrib)
  ultimately have "before_orp w @ [text_w w ! nat (orp_index w)] @ after_orp w = text_w w"
    using n by (simp add: id_take_nth_drop [symmetric])
  with b c show ?thesis by blast
qed

text \<open>The hypotheses of C10 hold for the first word of \<open>reading it\<close>.\<close>

theorem orp_views_reconstruct_witness:
  "process_text (py ''reading it'') =
     Inr [\<lparr>text_w = py ''reading'', orp_index = 2, pause_after = 1\<rparr>,
          \<lparr>text_w = py ''it'', orp_index = 0, pause_after = 1\<rparr>]
   \<and> orp_char \<lparr>text_w = py ''reading'', orp_index = 2, pause_after = 1\<rparr> = Inr (py ''a'')
   \<and> before_orp \<lparr>text_w = py ''reading'', orp_index = 2, pause_after = 1\<rparr> = py ''re''
   \<and> after_orp \<lparr>text_w = py ''reading'', orp_index = 2, pause_after = 1\<rparr> = py ''ding''"
proof -
  let ?a = "\<lparr>text_w = py ''reading'', orp_index = 2, pause_after = 1\<rparr>"
  let ?b = "\<lparr>text_w = py ''it'', orp_index = 0, pause_after = 1\<rparr>"
  have h: "process_text (py ''reading it'') = Inr [?a, ?b]"
    by (simp add: text_eval)
  have a: "?a \<in> set [?a, ?b]"
    by simp
  from orp_views_reconstruct [OF h a] h show ?thesis
    by (simp add: py_def orp_char_def before_orp_def after_orp_def py_index_def
        py_slice_to_def py_slice_from_def)
qed

section \<open>Properties of the double arithmetic\<close>

lemma exp_up_eq: "0 < x \<Longrightarrow> 2 ^ 52 \<le> x * 2 ^ k \<Longrightarrow> x * 2 ^ k < 2 ^ 53 \<Longrightarrow> exp_up x = k"
proof (induction k arbitrary: x)
  case 0
  then show ?case by (subst exp_up.simps) simp
next
  case (Suc k)
  have "(1::rat) \<le> 2 ^ k" by simp
  then have "x * 2 \<le> x * 2 * 2 ^ k" using Suc.prems(1) by simp
  also have "\<dots> < 2 ^ 53" using Suc.prems(3) by simp
  finally have lt: "x < 2 ^ 52" by simp
  have "exp_up (2 * x) = k"
    using Suc.prems by (intro Suc.IH) (simp_all add: mult.commute mult.left_commute)
  with lt Suc.prems(1) show ?case by (subst exp_up.simps) simp
qed

lemma exp_up_range:
  "0 < x \<Longrightarrow> x < 2 ^ 53 \<Longrightarrow> 2 ^ 52 \<le> x * 2 ^ exp_up x \<and> x * 2 ^ exp_up x < 2 ^ 53"
proof (induction x rule: exp_up.induct)
  case (1 x)
  show ?case
  proof (cases "x < 2 ^ 52")
    case True
    with "1.prems" have "2 ^ 52 \<le> 2 * x * 2 ^ exp_up (2 * x) \<and> 2 * x * 2 ^ exp_up (2 * x) < 2 ^ 53"
      by (intro "1.IH") simp_all
    moreover have "exp_up x = Suc (exp_up (2 * x))"
      using True "1.prems" by (subst exp_up.simps) simp
    ultimately show ?thesis by (simp add: mult.commute mult.left_commute)
  next
    case False
    then have "exp_up x = 0" by (subst exp_up.simps) simp
    with False "1.prems" show ?thesis by simp
  qed
qed

lemma exp_down_zero: "x < 2 ^ 53 \<Longrightarrow> exp_down x = 0"
  by (subst exp_down.simps) simp

lemma round_even_cert:
  assumes "\<bar>y - of_int m\<bar> < 1 / 2"
  shows "round_even y = m"
proof (cases "of_int m \<le> y")
  case True
  with assms have "\<lfloor>y\<rfloor> = m" by (intro floor_unique) linarith+
  with assms True show ?thesis by (simp add: round_even_def Let_def)
next
  case False
  have lo: "of_int (m - 1) \<le> y" using assms False by simp
  have hi: "y < of_int (m - 1) + 1" using False by simp
  from lo hi have f: "\<lfloor>y\<rfloor> = m - 1" by (rule floor_unique)
  have "1 / 2 < y - of_int (m - 1)" using assms False by simp
  with f show ?thesis by (simp add: round_even_def Let_def)
qed

lemma round_even_int: "round_even (of_int m) = m"
  by (rule round_even_cert) simp

lemma fl_cert:
  assumes "0 < x" and "2 ^ 52 \<le> x * 2 ^ k" and "x * 2 ^ k < 2 ^ 53"
    and "\<bar>x * 2 ^ k - of_int m\<bar> < 1 / 2"
  shows "fl x = of_int m / 2 ^ k"
proof -
  have u: "exp_up x = k" using assms(1-3) by (rule exp_up_eq)
  have "(1::rat) \<le> 2 ^ k" by simp
  then have "x \<le> x * 2 ^ k" using assms(1) by simp
  with assms(3) have "x < 2 ^ 53" by simp
  then have d: "exp_down x = 0" by (rule exp_down_zero)
  have "round_even (x * 2 ^ k) = m" using assms(4) by (rule round_even_cert)
  with assms(1) u d show ?thesis by (simp add: fl_def Let_def)
qed

lemma fl_minus: "fl (- x) = - fl x"
  by (simp add: fl_def Let_def)

lemma fl_of_int:
  assumes "\<bar>m\<bar> < 2 ^ 53"
  shows "fl (of_int m) = of_int m"
proof (cases "m = 0")
  case True
  then show ?thesis by (simp add: fl_def)
next
  case False
  define a :: rat where "a = \<bar>of_int m\<bar>"
  have a: "0 < a" "a < 2 ^ 53" "a = of_int \<bar>m\<bar>"
    using False assms unfolding a_def by (simp_all flip: of_int_abs add: of_int_less_numeral_power_cancel_iff)
  note r = exp_up_range [OF a(1,2)]
  have "a * 2 ^ exp_up a = of_int (\<bar>m\<bar> * 2 ^ exp_up a)" by (simp add: a(3))
  then have "round_even (a * 2 ^ exp_up a) = \<bar>m\<bar> * 2 ^ exp_up a"
    by (simp only: round_even_int)
  then have "fl (of_int m) = sgn (of_int m) * (of_int (\<bar>m\<bar> * 2 ^ exp_up a) / 2 ^ exp_up a)"
    using False exp_down_zero [OF a(2)] by (simp add: fl_def Let_def a_def)
  also have "\<dots> = sgn (of_int m) * of_int \<bar>m\<bar>" by simp
  also have "\<dots> = of_int m" by (simp add: sgn_if)
  finally show ?thesis .
qed

lemma fl_of_nat: "n < 2 ^ 53 \<Longrightarrow> fl (of_nat n) = of_nat n"
  using fl_of_int [of "int n"] by simp

lemma py_int_cert: "0 \<le> x \<Longrightarrow> of_int m \<le> x \<Longrightarrow> x < of_int m + 1 \<Longrightarrow> py_int x = m"
  by (simp add: py_int_def floor_unique)

section \<open>Properties of the engine\<close>

lemmas engine_defs = emit_def timer_start_def timer_stop_def timer_setInterval_def
  set_is_playing_def set_current_index_def

lemma seek_empty: "words (state e) = [] \<Longrightarrow> seek i e = e"
  by (simp add: seek_def)

lemma seek_nonempty:
  assumes "words (state e) \<noteq> []"
  shows "seek i e =
     e\<lparr>state := (state e)\<lparr>current_index := max 0 (min i (int (length (words (state e))) - 1))\<rparr>,
       emitted := emitted e @
         [word_changed (Some (words (state e) ! nat (max 0 (min i (int (length (words (state e))) - 1))))),
          progress_changed
            (fl (fl (of_int (max 0 (min i (int (length (words (state e))) - 1)))
                      / of_nat (length (words (state e)))) * 100))]\<rparr>"
proof -
  have "0 < length (words (state e))" using assms by simp
  then show ?thesis
    using assms by (simp add: seek_def Let_def engine_defs current_word_def progress_def)
qed

lemma seek_state:
  "words (state e) \<noteq> [] \<Longrightarrow>
   state (seek i e) = (state e)\<lparr>current_index := max 0 (min i (int (length (words (state e))) - 1))\<rparr>"
  by (simp add: seek_nonempty)

lemma seek_timer: "timer (seek i e) = timer e"
  by (cases "words (state e) = []") (simp_all add: seek_empty seek_nonempty)

lemma seek_clamp_eq:
  assumes "max 0 (min i (int (length (words (state e))) - 1)) = max 0 (min j (int (length (words (state e))) - 1))"
  shows "seek i e = seek j e"
  using assms by (cases "words (state e) = []") (simp_all add: seek_empty seek_nonempty)

lemma py_int_floor_clamp: "0 \<le> n \<Longrightarrow> max 0 (min (py_int x) n) = max 0 (min \<lfloor>x\<rfloor> n)"
proof (cases "x < 0")
  case True
  then have a: "\<lfloor>x\<rfloor> < 0" by (simp add: floor_less_iff)
  have b: "- \<lfloor>- x\<rfloor> \<le> 0" using True by (simp add: le_floor_iff)
  have "max 0 (min \<lfloor>x\<rfloor> n) = 0" using a by arith
  moreover have "max 0 (min (- \<lfloor>- x\<rfloor>) n) = 0" using b by arith
  ultimately show ?thesis using True by (simp only: py_int_def if_True)
next
  case False
  then show ?thesis by (simp add: py_int_def)
qed

lemma seek_py_int: "seek (py_int x) e = seek \<lfloor>x\<rfloor> e"
proof (cases "words (state e) = []")
  case True
  then show ?thesis by (simp add: seek_empty)
next
  case False
  then have "0 \<le> int (length (words (state e))) - 1"
    by (cases "words (state e)") simp_all
  then show ?thesis by (intro seek_clamp_eq py_int_floor_clamp)
qed

lemma load_text_words:
  "\<exists>e1. load_text s e0 = Inr e1 \<and> process_text s = Inr (words (state e1))
     \<and> current_index (state e1) = 0 \<and> wpm (state e1) = wpm (state e0)
     \<and> \<not> is_playing (state e1) \<and> \<not> active (timer e1)"
proof -
  obtain ws where ws: "process_text s = Inr ws"
    using process_text_result by blast
  then show ?thesis
    by (simp add: load_text_def stop_def Let_def engine_defs)
qed

text \<open>
  Claim C6. With words loaded, \<open>seek(i)\<close> sets the cursor to
  \<open>max(0, min(i, len(words) - 1))\<close> and keeps the words, the rate, the playing flag and the
  timer; without words it changes nothing. \<open>skip_forward(n)\<close> is \<open>seek(cursor + n)\<close> and
  \<open>skip_backward(n)\<close> is \<open>seek(cursor - n)\<close>. After loading \<open>one two three\<close> into any engine,
  \<open>skip_forward(10)\<close> leaves the cursor at 2.
\<close>

theorem seek_frame:
  "(words (state e) \<noteq> [] \<longrightarrow>
      current_index (state (seek i e)) = max 0 (min i (int (length (words (state e))) - 1))
      \<and> words (state (seek i e)) = words (state e)
      \<and> wpm (state (seek i e)) = wpm (state e)
      \<and> is_playing (state (seek i e)) = is_playing (state e)
      \<and> timer (seek i e) = timer e)
   \<and> (words (state e) = [] \<longrightarrow> seek i e = e)
   \<and> skip_forward n e = seek (current_index (state e) + n) e
   \<and> skip_backward n e = seek (current_index (state e) - n) e
   \<and> (\<exists>e1. load_text (py ''one two three'') e0 = Inr e1
         \<and> current_index (state (skip_forward 10 e1)) = 2)"
proof -
  obtain e1 where e1: "load_text (py ''one two three'') e0 = Inr e1"
    "process_text (py ''one two three'') = Inr (words (state e1))"
    "current_index (state e1) = 0"
    using load_text_words by blast
  have ex: "process_text (py ''one two three'') = Inr
    [\<lparr>text_w = py ''one'', orp_index = 0, pause_after = 1\<rparr>,
     \<lparr>text_w = py ''two'', orp_index = 0, pause_after = 1\<rparr>,
     \<lparr>text_w = py ''three'', orp_index = 1, pause_after = 1\<rparr>]"
    by (simp add: text_eval)
  have "words (state e1) =
    [\<lparr>text_w = py ''one'', orp_index = 0, pause_after = 1\<rparr>,
     \<lparr>text_w = py ''two'', orp_index = 0, pause_after = 1\<rparr>,
     \<lparr>text_w = py ''three'', orp_index = 1, pause_after = 1\<rparr>]"
    using e1(2) unfolding ex by simp
  then have "length (words (state e1)) = 3" "words (state e1) \<noteq> []" by simp_all
  then have "current_index (state (skip_forward 10 e1)) = 2"
    using e1(3) by (simp add: skip_forward_def seek_def Let_def engine_defs)
  with e1(1) show ?thesis
    by (simp add: seek_empty seek_state seek_timer skip_forward_def skip_backward_def)
qed

text \<open>C6 at an engine with two words, and at the engine without words.\<close>

theorem seek_frame_witness:
  "words (state (seek 7 \<lparr>state = \<lparr>words = [\<lparr>text_w = py ''a'', orp_index = 0, pause_after = 1\<rparr>,
        \<lparr>text_w = py ''b'', orp_index = 0, pause_after = 1\<rparr>], current_index = 0, wpm = 300,
        is_playing = True\<rparr>, timer = \<lparr>active = True, interval = 200\<rparr>, emitted = []\<rparr>))
     \<noteq> []
   \<and> current_index (state (seek 7 \<lparr>state = \<lparr>words = [\<lparr>text_w = py ''a'', orp_index = 0, pause_after = 1\<rparr>,
        \<lparr>text_w = py ''b'', orp_index = 0, pause_after = 1\<rparr>], current_index = 0, wpm = 300,
        is_playing = True\<rparr>, timer = \<lparr>active = True, interval = 200\<rparr>, emitted = []\<rparr>)) = 1
   \<and> seek 7 RSVPEngine_init = RSVPEngine_init"
  using seek_frame [of "\<lparr>state = \<lparr>words = [\<lparr>text_w = py ''a'', orp_index = 0, pause_after = 1\<rparr>,
        \<lparr>text_w = py ''b'', orp_index = 0, pause_after = 1\<rparr>], current_index = 0, wpm = 300,
        is_playing = True\<rparr>, timer = \<lparr>active = True, interval = 200\<rparr>, emitted = []\<rparr>" 7]
    seek_frame [of RSVPEngine_init 7]
  by (simp add: RSVPEngine_init_def)

lemma seek_percent_finite:
  "words (state e) \<noteq> [] \<Longrightarrow>
   seek_percent (Finite p) e =
     Inr (seek \<lfloor>fl (fl (p / 100) * fl (of_nat (length (words (state e)))))\<rfloor> e)"
proof -
  have "fl 100 = 100" using fl_of_int [of 100] by simp
  then show "words (state e) \<noteq> [] \<Longrightarrow> ?thesis"
    by (simp add: seek_percent_def float_truediv_def float_mul_def float_to_int_def seek_py_int)
qed

text \<open>
  Claim C4, as the code has it. Without words \<open>seek_percent\<close> changes nothing, whatever the
  float. With words, nan raises \<open>ValueError\<close> and an infinity \<open>OverflowError\<close>. For a finite
  double \<open>p\<close> (\<open>fl p = p\<close>, of magnitude up to \<open>2^960\<close>, which keeps the doubles of the
  computation inside the exponent range) and \<open>n\<close> words, \<open>0 < n < 2^53\<close>, \<open>seek_percent(p)\<close> is
  \<open>seek\<close> of the index computed in doubles, \<open>fl (fl (p / 100) * n)\<close> truncated, so the cursor
  becomes \<open>max(0, min(floor(fl (fl (p / 100) * n)), n - 1))\<close>; for \<open>p = 100\<close> the index computed
  is \<open>n\<close> and the cursor becomes \<open>n - 1\<close>. After loading \<open>one two three four\<close> into any engine,
  \<open>seek_percent(50)\<close> leaves the cursor at 2. (The source truncates with \<open>int\<close>; a negative
  index is clamped to 0 like its floor, so the two agree in every result of \<open>seek\<close>.)
\<close>

theorem seek_percent_double:
  "(words (state e) = [] \<longrightarrow> seek_percent percent e = Inr e)
   \<and> (words (state e) \<noteq> [] \<longrightarrow>
        seek_percent NaN e = Inl ValueError
        \<and> seek_percent PosInf e = Inl OverflowError
        \<and> seek_percent NegInf e = Inl OverflowError)
   \<and> (words (state e) \<noteq> [] \<and> length (words (state e)) < 2 ^ 53
        \<and> fl p = p \<and> \<bar>p\<bar> \<le> 2 ^ 960 \<longrightarrow>
        seek_percent (Finite p) e
          = Inr (seek \<lfloor>fl (fl (p / 100) * of_nat (length (words (state e))))\<rfloor> e)
        \<and> current_index (state (seek \<lfloor>fl (fl (p / 100) * of_nat (length (words (state e))))\<rfloor> e))
          = max 0 (min \<lfloor>fl (fl (p / 100) * of_nat (length (words (state e))))\<rfloor>
                       (int (length (words (state e))) - 1))
        \<and> \<lfloor>fl (fl (100 / 100) * of_nat (length (words (state e))))\<rfloor>
          = int (length (words (state e)))
        \<and> seek_percent (Finite 100) e = Inr (seek (int (length (words (state e)))) e)
        \<and> current_index (state (seek (int (length (words (state e)))) e))
          = int (length (words (state e))) - 1)
   \<and> (\<exists>e1. load_text (py ''one two three four'') e0 = Inr e1
         \<and> seek_percent (Finite 50) e1 = Inr (seek 2 e1)
         \<and> current_index (state (seek 2 e1)) = 2)"
proof -
  have a: "words (state e) = [] \<longrightarrow> seek_percent percent e = Inr e"
    by (simp add: seek_percent_def)
  have b: "words (state e) \<noteq> [] \<longrightarrow>
        seek_percent NaN e = Inl ValueError
        \<and> seek_percent PosInf e = Inl OverflowError
        \<and> seek_percent NegInf e = Inl OverflowError"
    by (simp add: seek_percent_def float_truediv_def float_mul_def float_to_int_def)
  have c: "seek_percent (Finite p) e
          = Inr (seek \<lfloor>fl (fl (p / 100) * of_nat (length (words (state e))))\<rfloor> e)
        \<and> current_index (state (seek \<lfloor>fl (fl (p / 100) * of_nat (length (words (state e))))\<rfloor> e))
          = max 0 (min \<lfloor>fl (fl (p / 100) * of_nat (length (words (state e))))\<rfloor>
                       (int (length (words (state e))) - 1))
        \<and> \<lfloor>fl (fl (100 / 100) * of_nat (length (words (state e))))\<rfloor>
          = int (length (words (state e)))
        \<and> seek_percent (Finite 100) e = Inr (seek (int (length (words (state e)))) e)
        \<and> current_index (state (seek (int (length (words (state e)))) e))
          = int (length (words (state e))) - 1"
    if ne: "words (state e) \<noteq> []" and n: "length (words (state e)) < 2 ^ 53"
  proof -
    have fn: "fl (of_nat (length (words (state e)))) = of_nat (length (words (state e)))"
      using n by (rule fl_of_nat)
    have one: "fl 1 = 1" using fl_of_int [of 1] by simp
    have hundred: "fl (fl 1 * of_nat (length (words (state e))))
        = of_nat (length (words (state e)))"
      by (simp add: one fn)
    have "0 < int (length (words (state e)))" using ne by simp
    then show ?thesis
      using ne by (simp add: seek_percent_finite fn hundred seek_state)
  qed
  obtain e1 where e1: "load_text (py ''one two three four'') e0 = Inr e1"
    "process_text (py ''one two three four'') = Inr (words (state e1))"
    using load_text_words by blast
  have ex: "process_text (py ''one two three four'') = Inr
    [\<lparr>text_w = py ''one'', orp_index = 0, pause_after = 1\<rparr>,
     \<lparr>text_w = py ''two'', orp_index = 0, pause_after = 1\<rparr>,
     \<lparr>text_w = py ''three'', orp_index = 1, pause_after = 1\<rparr>,
     \<lparr>text_w = py ''four'', orp_index = 1, pause_after = 1\<rparr>]"
    by (simp add: text_eval)
  have "words (state e1) =
    [\<lparr>text_w = py ''one'', orp_index = 0, pause_after = 1\<rparr>,
     \<lparr>text_w = py ''two'', orp_index = 0, pause_after = 1\<rparr>,
     \<lparr>text_w = py ''three'', orp_index = 1, pause_after = 1\<rparr>,
     \<lparr>text_w = py ''four'', orp_index = 1, pause_after = 1\<rparr>]"
    using e1(2) unfolding ex by simp
  then have len: "length (words (state e1)) = 4" "words (state e1) \<noteq> []" by simp_all
  have half: "fl (1 / 2) = 1 / 2"
  proof -
    have "fl (1 / 2) = of_int 4503599627370496 / 2 ^ 53"
      by (rule fl_cert) simp_all
    then show ?thesis by simp
  qed
  have "fl (fl (50 / 100) * fl (of_nat (length (words (state e1))))) = 2"
    using fl_of_int [of 4] fl_of_int [of 2] by (simp add: half len)
  then have "seek_percent (Finite 50) e1 = Inr (seek 2 e1)"
    using len(2) by (simp add: seek_percent_finite)
  moreover have "current_index (state (seek 2 e1)) = 2"
    using len by (simp add: seek_state)
  ultimately have d: "\<exists>e1. load_text (py ''one two three four'') e0 = Inr e1
         \<and> seek_percent (Finite 50) e1 = Inr (seek 2 e1)
         \<and> current_index (state (seek 2 e1)) = 2"
    using e1(1) by blast
  from a b c d show ?thesis by blast
qed

text \<open>C4, as the code has it, at an engine with two words and at the engine without words.\<close>

theorem seek_percent_double_witness:
  "seek_percent (Finite 50)
      \<lparr>state = \<lparr>words = [\<lparr>text_w = py ''Hi.'', orp_index = 0, pause_after = 5 / 2\<rparr>,
          \<lparr>text_w = py ''there'', orp_index = 1, pause_after = 1\<rparr>], current_index = 0,
          wpm = 300, is_playing = False\<rparr>, timer = \<lparr>active = False, interval = 0\<rparr>,
          emitted = []\<rparr>
     = Inr (seek 1
      \<lparr>state = \<lparr>words = [\<lparr>text_w = py ''Hi.'', orp_index = 0, pause_after = 5 / 2\<rparr>,
          \<lparr>text_w = py ''there'', orp_index = 1, pause_after = 1\<rparr>], current_index = 0,
          wpm = 300, is_playing = False\<rparr>, timer = \<lparr>active = False, interval = 0\<rparr>,
          emitted = []\<rparr>)
   \<and> seek_percent NaN RSVPEngine_init = Inr RSVPEngine_init"
proof -
  let ?E = "\<lparr>state = \<lparr>words = [\<lparr>text_w = py ''Hi.'', orp_index = 0, pause_after = 5 / 2\<rparr>,
          \<lparr>text_w = py ''there'', orp_index = 1, pause_after = 1\<rparr>], current_index = 0,
          wpm = 300, is_playing = False\<rparr>, timer = \<lparr>active = False, interval = 0\<rparr>,
          emitted = []\<rparr>"
  have h: "words (state ?E) \<noteq> [] \<and> length (words (state ?E)) < 2 ^ 53
      \<and> fl 50 = 50 \<and> \<bar>50 :: rat\<bar> \<le> 2 ^ 960"
    using fl_of_int [of 50] by simp
  have half: "fl (1 / 2) = 1 / 2"
  proof -
    have "fl (1 / 2) = of_int 4503599627370496 / 2 ^ 53"
      by (rule fl_cert) simp_all
    then show ?thesis by simp
  qed
  have one: "fl (fl (50 / 100) * of_nat (length (words (state ?E)))) = 1"
    using fl_of_int [of 1] by (simp add: half)
  from seek_percent_double [of ?E "Finite 50" 50 RSVPEngine_init, THEN conjunct2, THEN conjunct2,
      THEN conjunct1, THEN mp, OF h, THEN conjunct1]
  have a: "seek_percent (Finite 50) ?E = Inr (seek 1 ?E)"
    unfolding one by simp
  have em: "words (state RSVPEngine_init) = []" by (simp add: RSVPEngine_init_def)
  from seek_percent_double [of RSVPEngine_init NaN 50 RSVPEngine_init, THEN conjunct1, THEN mp, OF em]
  have "seek_percent NaN RSVPEngine_init = Inr RSVPEngine_init" .
  with a show ?thesis by blast
qed

text \<open>
  Claim C4, as it is stated, fails: with 50 words, \<open>seek_percent(58)\<close> computes 0.58 as the
  double \<open>5224175567749775 / 2^53\<close>, below 58/100, and its product with 50 as
  \<open>8162774324609023 / 2^48\<close>, below 29; the cursor becomes 28, where the floor of the exact
  product is 29.
\<close>

theorem seek_percent_floor_counterexample:
  "seek_percent (Finite 58)
      (RSVPEngine_init\<lparr>state := (state RSVPEngine_init)
        \<lparr>words := replicate 50 \<lparr>text_w = py ''word'', orp_index = 1, pause_after = 1\<rparr>\<rparr>\<rparr>)
     = Inr (seek 28
      (RSVPEngine_init\<lparr>state := (state RSVPEngine_init)
        \<lparr>words := replicate 50 \<lparr>text_w = py ''word'', orp_index = 1, pause_after = 1\<rparr>\<rparr>\<rparr>))
   \<and> current_index (state (seek 28
      (RSVPEngine_init\<lparr>state := (state RSVPEngine_init)
        \<lparr>words := replicate 50 \<lparr>text_w = py ''word'', orp_index = 1, pause_after = 1\<rparr>\<rparr>\<rparr>))) = 28
   \<and> max 0 (min \<lfloor>(58 :: rat) / 100 * 50\<rfloor> (50 - 1)) = (29 :: int)"
proof -
  let ?E = "RSVPEngine_init\<lparr>state := (state RSVPEngine_init)
        \<lparr>words := replicate 50 \<lparr>text_w = py ''word'', orp_index = 1, pause_after = 1\<rparr>\<rparr>\<rparr>"
  have ne: "words (state ?E) \<noteq> []" "length (words (state ?E)) = 50" by simp_all
  have q: "fl (58 / 100) = 5224175567749775 / 2 ^ 53"
  proof -
    have "fl (58 / 100) = of_int 5224175567749775 / 2 ^ 53"
      by (rule fl_cert) simp_all
    then show ?thesis by simp
  qed
  have m: "fl (5224175567749775 / 2 ^ 53 * 50) = 8162774324609023 / 2 ^ 48"
  proof -
    have "fl (5224175567749775 / 2 ^ 53 * 50) = of_int 8162774324609023 / 2 ^ 48"
      by (rule fl_cert) simp_all
    then show ?thesis by simp
  qed
  have fifty: "fl 50 = 50" using fl_of_int [of 50] by simp
  have "\<lfloor>8162774324609023 / 2 ^ 48 :: rat\<rfloor> = 28"
    by (rule floor_unique) simp_all
  then have "\<lfloor>fl (fl (58 / 100) * fl (of_nat (length (words (state ?E)))))\<rfloor> = 28"
    by (simp only: ne(2) q m fifty of_nat_numeral)
  then have a: "seek_percent (Finite 58) ?E = Inr (seek 28 ?E)"
    using seek_percent_finite [OF ne(1), of 58] by simp
  have b: "current_index (state (seek 28 ?E)) = 28"
    by (simp add: seek_state)
  have c: "max 0 (min \<lfloor>(58 :: rat) / 100 * 50\<rfloor> (50 - 1)) = (29 :: int)"
    by simp
  from a b c show ?thesis by blast
qed

lemma next_sentence_loop_spec:
  "0 \<le> idx \<Longrightarrow>
   next_sentence_loop e idx =
     Inr (seek (case find (\<lambda>i. sentence_terminator (words (state e) ! nat i))
                       [idx..int (length (words (state e))) - 2] of
                  Some i \<Rightarrow> i + 1
                | None \<Rightarrow> int (length (words (state e))) - 1) e)"
proof (induction e idx rule: next_sentence_loop.induct)
  case (1 e idx)
  let ?n = "int (length (words (state e)))"
  show ?case
  proof (cases "idx < ?n - 1")
    case False
    then have "[idx..?n - 2] = []" by simp
    with False show ?thesis
      by (subst next_sentence_loop.simps) simp
  next
    case True
    let ?w = "words (state e) ! nat idx"
    have ix: "py_index (words (state e)) idx = Inr ?w"
      using True "1.prems" by (simp add: py_index_nat)
    have up: "[idx..?n - 2] = idx # [idx + 1..?n - 2]"
      using True by (simp add: upto_rec1)
    show ?thesis
    proof (cases "sentence_terminator ?w")
      case t: True
      then have "text_w ?w \<noteq> []" "last (text_w ?w) \<in> set (py ''.!?'')"
        by (simp_all add: sentence_terminator_def)
      then show ?thesis using True ix t
        by (subst next_sentence_loop.simps) (simp add: up py_index_last)
    next
      case f: False
      have ih: "next_sentence_loop e (idx + 1) =
        Inr (seek (case find (\<lambda>i. sentence_terminator (words (state e) ! nat i))
                       [idx + 1..?n - 2] of
                  Some i \<Rightarrow> i + 1
                | None \<Rightarrow> ?n - 1) e)"
      proof (cases "text_w ?w = []")
        case True
        then have nn: "\<not> text_w ?w \<noteq> []" by simp
        from "1.IH"(2) [OF \<open>idx < ?n - 1\<close> ix nn] "1.prems" show ?thesis by simp
      next
        case ne: False
        then have l: "py_index (text_w ?w) (- 1) = Inr (last (text_w ?w))"
          by (rule py_index_last)
        have nt: "last (text_w ?w) \<notin> set (py ''.!?'')"
          using f ne by (simp add: sentence_terminator_def)
        from "1.IH"(1) [OF \<open>idx < ?n - 1\<close> ix ne l nt] "1.prems" show ?thesis by simp
      qed
      have "next_sentence_loop e idx = next_sentence_loop e (idx + 1)"
      proof (cases "text_w ?w = []")
        case True
        then show ?thesis using \<open>idx < ?n - 1\<close> ix
          by (subst next_sentence_loop.simps) simp
      next
        case ne: False
        have nt: "last (text_w ?w) \<notin> set (py ''.!?'')"
          using f ne by (simp add: sentence_terminator_def)
        show ?thesis using \<open>idx < ?n - 1\<close> ix ne nt
          by (subst next_sentence_loop.simps) (simp add: py_index_last)
      qed
      then show ?thesis using ih f by (simp add: up)
    qed
  qed
qed


lemma next_sentence_spec_range:
  assumes "ws \<noteq> []"
  shows "0 \<le> c \<Longrightarrow> 0 \<le> next_sentence_spec ws c"
    and "next_sentence_spec ws c \<le> int (length ws) - 1"
proof -
  have n: "0 \<le> int (length ws) - 1" using assms by (cases ws) simp_all
  show "next_sentence_spec ws c \<le> int (length ws) - 1"
    unfolding next_sentence_spec_def
    by (auto split: option.splits simp: find_Some_iff)
  show "0 \<le> c \<Longrightarrow> 0 \<le> next_sentence_spec ws c"
    unfolding next_sentence_spec_def using n
    by (auto split: option.splits simp: find_Some_iff)
qed

text \<open>
  Claim C5. With words loaded and a cursor that is not negative, \<open>next_sentence\<close> seeks to
  \<open>next_sentence_spec\<close>: one past the first sentence terminator at an index from the cursor
  up to \<open>len(words) - 2\<close>, or \<open>len(words) - 1\<close> when there is none; the cursor becomes
  exactly that index. After loading \<open>First sentence. Second sentence. Third.\<close> into any
  engine and \<open>seek(0)\<close>, \<open>next_sentence\<close> makes \<open>Second\<close> the current word.
\<close>

theorem next_sentence_scan:
  "(words (state e) \<noteq> [] \<and> 0 \<le> current_index (state e) \<longrightarrow>
      next_sentence e
        = Inr (seek (next_sentence_spec (words (state e)) (current_index (state e))) e)
      \<and> current_index
            (state (seek (next_sentence_spec (words (state e)) (current_index (state e))) e))
          = next_sentence_spec (words (state e)) (current_index (state e)))
   \<and> (\<exists>e1 e2. load_text (py ''First sentence. Second sentence. Third.'') e0 = Inr e1
         \<and> next_sentence (seek 0 e1) = Inr e2
         \<and> map_option text_w (current_word (state e2)) = Some (py ''Second''))"
proof -
  have general: "next_sentence e
        = Inr (seek (next_sentence_spec (words (state e)) (current_index (state e))) e)
      \<and> current_index
            (state (seek (next_sentence_spec (words (state e)) (current_index (state e))) e))
          = next_sentence_spec (words (state e)) (current_index (state e))"
    if "words (state e) \<noteq> []" "0 \<le> current_index (state e)" for e
  proof -
    have "next_sentence e
        = Inr (seek (next_sentence_spec (words (state e)) (current_index (state e))) e)"
      using that by (simp add: next_sentence_def next_sentence_loop_spec next_sentence_spec_def)
    moreover have "current_index
            (state (seek (next_sentence_spec (words (state e)) (current_index (state e))) e))
          = next_sentence_spec (words (state e)) (current_index (state e))"
      using next_sentence_spec_range [OF that(1), of "current_index (state e)"] that
      by (simp add: seek_state)
    ultimately show ?thesis by simp
  qed
  obtain e1 where e1: "load_text (py ''First sentence. Second sentence. Third.'') e0 = Inr e1"
    "process_text (py ''First sentence. Second sentence. Third.'') = Inr (words (state e1))"
    using load_text_words by blast
  have ex: "process_text (py ''First sentence. Second sentence. Third.'') = Inr
    [\<lparr>text_w = py ''First'', orp_index = 1, pause_after = 1\<rparr>,
     \<lparr>text_w = py ''sentence.'', orp_index = 2, pause_after = 5 / 2\<rparr>,
     \<lparr>text_w = py ''Second'', orp_index = 2, pause_after = 1\<rparr>,
     \<lparr>text_w = py ''sentence.'', orp_index = 2, pause_after = 5 / 2\<rparr>,
     \<lparr>text_w = py ''Third.'', orp_index = 2, pause_after = 5 / 2\<rparr>]"
    by (simp add: text_eval)
  have ws: "words (state e1) =
    [\<lparr>text_w = py ''First'', orp_index = 1, pause_after = 1\<rparr>,
     \<lparr>text_w = py ''sentence.'', orp_index = 2, pause_after = 5 / 2\<rparr>,
     \<lparr>text_w = py ''Second'', orp_index = 2, pause_after = 1\<rparr>,
     \<lparr>text_w = py ''sentence.'', orp_index = 2, pause_after = 5 / 2\<rparr>,
     \<lparr>text_w = py ''Third.'', orp_index = 2, pause_after = 5 / 2\<rparr>]"
    using e1(2) unfolding ex by simp
  let ?e = "seek 0 e1"
  have st: "state ?e = (state e1)\<lparr>current_index := 0\<rparr>"
    using ws by (simp add: seek_state)
  have tgt: "next_sentence_spec (words (state ?e)) (current_index (state ?e)) = 2"
    unfolding st by (simp add: ws next_sentence_spec_def sentence_terminator_def py_def upto_rec1)
  have ne: "words (state ?e) \<noteq> []" "0 \<le> current_index (state ?e)"
    unfolding st by (simp_all add: ws)
  have "next_sentence ?e = Inr (seek 2 ?e)"
    using general [OF ne] tgt by simp
  moreover have "map_option text_w (current_word (state (seek 2 ?e))) = Some (py ''Second'')"
    using ne(1) by (simp add: seek_state current_word_def st ws)
  ultimately have "\<exists>e1 e2. load_text (py ''First sentence. Second sentence. Third.'') e0 = Inr e1
         \<and> next_sentence (seek 0 e1) = Inr e2
         \<and> map_option text_w (current_word (state e2)) = Some (py ''Second'')"
    using e1(1) by blast
  with general [of e] show ?thesis by blast
qed

text \<open>C5 at an engine with three words and the cursor on a sentence terminator.\<close>

theorem next_sentence_scan_witness:
  "next_sentence
      \<lparr>state = \<lparr>words = [\<lparr>text_w = py ''Hi.'', orp_index = 0, pause_after = 5 / 2\<rparr>,
          \<lparr>text_w = py ''there'', orp_index = 1, pause_after = 1\<rparr>,
          \<lparr>text_w = py ''you'', orp_index = 0, pause_after = 1\<rparr>], current_index = 0,
          wpm = 300, is_playing = False\<rparr>, timer = \<lparr>active = False, interval = 0\<rparr>,
          emitted = []\<rparr>
    = Inr (seek 1
      \<lparr>state = \<lparr>words = [\<lparr>text_w = py ''Hi.'', orp_index = 0, pause_after = 5 / 2\<rparr>,
          \<lparr>text_w = py ''there'', orp_index = 1, pause_after = 1\<rparr>,
          \<lparr>text_w = py ''you'', orp_index = 0, pause_after = 1\<rparr>], current_index = 0,
          wpm = 300, is_playing = False\<rparr>, timer = \<lparr>active = False, interval = 0\<rparr>,
          emitted = []\<rparr>)"
  using next_sentence_scan [of "\<lparr>state = \<lparr>words = [\<lparr>text_w = py ''Hi.'', orp_index = 0, pause_after = 5 / 2\<rparr>,
          \<lparr>text_w = py ''there'', orp_index = 1, pause_after = 1\<rparr>,
          \<lparr>text_w = py ''you'', orp_index = 0, pause_after = 1\<rparr>], current_index = 0,
          wpm = 300, is_playing = False\<rparr>, timer = \<lparr>active = False, interval = 0\<rparr>,
          emitted = []\<rparr>"]
  by (simp add: next_sentence_spec_def sentence_terminator_def py_def upto_rec1)

lemma update_timer_interval_ok:
  "wpm (state e) \<noteq> 0 \<Longrightarrow>
   update_timer_interval e =
     Inr (timer_setInterval
            (word_interval (wpm (state e)) (current_word (state e))) e)"
  by (simp add: update_timer_interval_def word_interval_def Let_def split: option.splits)

lemma fl_6_5: "fl (6 / 5) = 5404319552844595 / 2 ^ 52"
proof -
  have "fl (6 / 5) = of_int 5404319552844595 / 2 ^ 52"
    by (rule fl_cert) simp_all
  then show ?thesis by simp
qed

lemma word_interval_360:
  assumes "pause_after w = 6 / 5"
  shows "word_interval 360 (Some w) = 199"
proof -
  have q: "(60000 :: rat) / of_int 360 = 500 / 3" by simp
  have a: "fl (500 / 3) = 5864062014805333 / 2 ^ 45"
  proof -
    have "fl (500 / 3) = of_int 5864062014805333 / 2 ^ 45"
      by (rule fl_cert) simp_all
    then show ?thesis by simp
  qed
  have c: "fl (5864062014805333 / 2 ^ 45 * (5404319552844595 / 2 ^ 52)) = 7036874417766399 / 2 ^ 45"
  proof -
    have "fl (5864062014805333 / 2 ^ 45 * (5404319552844595 / 2 ^ 52))
        = of_int 7036874417766399 / 2 ^ 45"
      by (rule fl_cert) simp_all
    then show ?thesis by simp
  qed
  have d: "py_int (7036874417766399 / 2 ^ 45) = 199"
    by (rule py_int_cert) simp_all
  show ?thesis
    unfolding word_interval_def by (simp only: option.case assms q a fl_6_5 c d)
qed

lemma word_interval_720:
  assumes "pause_after w = 6 / 5"
  shows "word_interval 720 (Some w) = 99"
proof -
  have q: "(60000 :: rat) / of_int 720 = 250 / 3" by simp
  have a: "fl (250 / 3) = 5864062014805333 / 2 ^ 46"
  proof -
    have "fl (250 / 3) = of_int 5864062014805333 / 2 ^ 46"
      by (rule fl_cert) simp_all
    then show ?thesis by simp
  qed
  have c: "fl (5864062014805333 / 2 ^ 46 * (5404319552844595 / 2 ^ 52)) = 7036874417766399 / 2 ^ 46"
  proof -
    have "fl (5864062014805333 / 2 ^ 46 * (5404319552844595 / 2 ^ 52))
        = of_int 7036874417766399 / 2 ^ 46"
      by (rule fl_cert) simp_all
    then show ?thesis by simp
  qed
  have d: "py_int (7036874417766399 / 2 ^ 46) = 99"
    by (rule py_int_cert) simp_all
  show ?thesis
    unfolding word_interval_def by (simp only: option.case assms q a fl_6_5 c d)
qed

lemma play_empty: "words (state e) = [] \<Longrightarrow> play e = Inr e"
  by (simp add: play_def)

lemma play_nonempty:
  assumes "words (state e) \<noteq> []" and "wpm (state e) \<noteq> 0"
  shows "\<exists>e'. play e = Inr e'
     \<and> state e' = (state e)\<lparr>current_index :=
            (if current_index (state e) \<ge> int (length (words (state e))) - 1 then 0
             else current_index (state e)),
          is_playing := True\<rparr>
     \<and> timer e' = \<lparr>active = True,
          interval = word_interval (wpm (state e)) (current_word (state e'))\<rparr>
     \<and> emitted e' = emitted e @ [state_changed]"
  using assms
  by (simp add: play_def Let_def update_timer_interval_ok engine_defs)

text \<open>
  Claim C3. Without words \<open>play\<close> changes nothing. With words (and a positive rate, as
  every rate the setter stores is), \<open>play\<close> returns normally; the cursor is reset to 0 when it
  was at \<open>len(words) - 1\<close> or beyond and is kept otherwise; \<open>is_playing\<close> holds, the timer is
  active, and its interval is that of the current word, \<open>int((60000 / wpm) * pause_after)\<close>
  as the doubles give it (\<open>word_interval\<close>). The pause factors are taken of magnitude up to
  \<open>2^960\<close>, which keeps the doubles inside the exponent range; the tokenizer's are 1, 1.2,
  1.5 and 2.5.
\<close>

theorem play_spec:
  "(words (state e) = [] \<longrightarrow> play e = Inr e)
   \<and> (words (state e) \<noteq> [] \<and> 0 < wpm (state e)
        \<and> (\<forall>w \<in> set (words (state e)). \<bar>pause_after w\<bar> \<le> 2 ^ 960) \<longrightarrow>
        (\<exists>e'. play e = Inr e'
           \<and> current_index (state e') =
               (if current_index (state e) \<ge> int (length (words (state e))) - 1 then 0
                else current_index (state e))
           \<and> is_playing (state e')
           \<and> active (timer e')
           \<and> interval (timer e') =
               word_interval (wpm (state e')) (current_word (state e'))
           \<and> words (state e') = words (state e)
           \<and> wpm (state e') = wpm (state e)
           \<and> emitted e' = emitted e @ [state_changed]))"
proof -
  have "\<exists>e'. play e = Inr e'
           \<and> current_index (state e') =
               (if current_index (state e) \<ge> int (length (words (state e))) - 1 then 0
                else current_index (state e))
           \<and> is_playing (state e')
           \<and> active (timer e')
           \<and> interval (timer e') =
               word_interval (wpm (state e')) (current_word (state e'))
           \<and> words (state e') = words (state e)
           \<and> wpm (state e') = wpm (state e)
           \<and> emitted e' = emitted e @ [state_changed]"
    if a: "words (state e) \<noteq> []" and b: "0 < wpm (state e)"
  proof -
    from b have "wpm (state e) \<noteq> 0" by simp
    from play_nonempty [OF a this] obtain e' where e': "play e = Inr e'"
      "state e' = (state e)\<lparr>current_index :=
            (if current_index (state e) \<ge> int (length (words (state e))) - 1 then 0
             else current_index (state e)),
          is_playing := True\<rparr>"
      "timer e' = \<lparr>active = True,
          interval = word_interval (wpm (state e)) (current_word (state e'))\<rparr>"
      "emitted e' = emitted e @ [state_changed]"
      by blast
    show ?thesis
      by (rule exI [of _ e']) (simp add: e')
  qed
  then show ?thesis by (simp add: play_empty)
qed

text \<open>
  C3 at the engine without words, and at an engine resting on its last word, whose first
  word is \<open>(hi)\<close>, at 360 words per minute: the interval is 199.
\<close>

theorem play_spec_witness:
  "play RSVPEngine_init = Inr RSVPEngine_init
   \<and> (\<exists>e'. play \<lparr>state = \<lparr>words = [\<lparr>text_w = py ''(hi)'', orp_index = 1, pause_after = 6 / 5\<rparr>,
          \<lparr>text_w = py ''there'', orp_index = 1, pause_after = 1\<rparr>], current_index = 1,
          wpm = 360, is_playing = False\<rparr>, timer = \<lparr>active = False, interval = 0\<rparr>,
          emitted = []\<rparr> = Inr e'
        \<and> current_index (state e') = 0 \<and> is_playing (state e') \<and> active (timer e')
        \<and> interval (timer e') = 199)"
proof -
  let ?E = "\<lparr>state = \<lparr>words = [\<lparr>text_w = py ''(hi)'', orp_index = 1, pause_after = 6 / 5\<rparr>,
          \<lparr>text_w = py ''there'', orp_index = 1, pause_after = 1\<rparr>], current_index = 1,
          wpm = 360, is_playing = False\<rparr>, timer = \<lparr>active = False, interval = 0\<rparr>,
          emitted = []\<rparr>"
  have a: "play RSVPEngine_init = Inr RSVPEngine_init"
    using play_spec [of RSVPEngine_init] by (simp add: RSVPEngine_init_def)
  have "words (state ?E) \<noteq> [] \<and> 0 < wpm (state ?E)
      \<and> (\<forall>w \<in> set (words (state ?E)). \<bar>pause_after w\<bar> \<le> 2 ^ 960)" by simp
  with play_spec [of ?E] obtain e' where e': "play ?E = Inr e'"
    "current_index (state e') =
       (if current_index (state ?E) \<ge> int (length (words (state ?E))) - 1 then 0
        else current_index (state ?E))"
    "is_playing (state e')" "active (timer e')"
    "interval (timer e') = word_interval (wpm (state e')) (current_word (state e'))"
    "words (state e') = words (state ?E)" "wpm (state e') = wpm (state ?E)"
    by blast
  have ci: "current_index (state e') = 0" using e'(2) by simp
  have cw: "current_word (state e')
      = Some \<lparr>text_w = py ''(hi)'', orp_index = 1, pause_after = 6 / 5\<rparr>"
    using ci e'(6) by (simp add: current_word_def)
  have w: "wpm (state e') = 360" using e'(7) by simp
  have "interval (timer e') = 199"
    unfolding e'(5) cw w by (rule word_interval_360) simp
  with e'(1,3,4) ci a show ?thesis by blast
qed

lemma set_wpm_result:
  "\<exists>e'. set_wpm v e = Inr e'
     \<and> state e' = (state e)\<lparr>wpm := max 50 (min 2000 v)\<rparr>
     \<and> emitted e' = emitted e
     \<and> active (timer e') = active (timer e)
     \<and> (is_playing (state e) \<longrightarrow>
          interval (timer e') =
            word_interval (max 50 (min 2000 v)) (current_word (state e')))
     \<and> (\<not> is_playing (state e) \<longrightarrow> timer e' = timer e)"
proof -
  let ?e1 = "e\<lparr>state := (state e)\<lparr>wpm := max 50 (min 2000 v)\<rparr>\<rparr>"
  have nz: "wpm (state ?e1) \<noteq> 0" by simp
  show ?thesis
  proof (cases "is_playing (state e)")
    case True
    then show ?thesis
      unfolding set_wpm_def Let_def
      by (simp add: update_timer_interval_ok [OF nz] engine_defs)
  next
    case False
    then show ?thesis
      by (simp add: set_wpm_def Let_def)
  qed
qed

lemma seek_emitted:
  "\<exists>sigs. emitted (seek i e) = emitted e @ sigs \<and> finished \<notin> set sigs"
  by (cases "words (state e) = []") (simp_all add: seek_empty seek_nonempty)

lemma previous_sentence_loop_seek:
  "previous_sentence_loop e idx = Inr e' \<Longrightarrow> \<exists>k. e' = seek k e"
proof (induction e idx rule: previous_sentence_loop.induct)
  case (1 e idx)
  from "1.prems" show ?case
    by (subst (asm) previous_sentence_loop.simps)
       (auto split: if_splits sum.splits dest: "1.IH")
qed

lemma previous_sentence_loop_total:
  "0 \<le> idx \<Longrightarrow> idx < int (length (words (state e))) \<Longrightarrow>
   \<exists>k. previous_sentence_loop e idx = Inr (seek k e)"
proof (induction e idx rule: previous_sentence_loop.induct)
  case (1 e idx)
  let ?w = "words (state e) ! nat idx"
  show ?case
  proof (cases "idx > 0")
    case False
    then have "previous_sentence_loop e idx = Inr (seek 0 e)"
      by (subst previous_sentence_loop.simps) simp
    then show ?thesis by blast
  next
    case True
    have ix: "py_index (words (state e)) idx = Inr ?w"
      using "1.prems" by (simp add: py_index_nat)
    show ?thesis
    proof (cases "text_w ?w = []")
      case e: True
      then have nn: "\<not> text_w ?w \<noteq> []" by simp
      have "\<exists>k. previous_sentence_loop e (idx - 1) = Inr (seek k e)"
        using "1.IH"(2) [OF True ix nn] True "1.prems" by simp
      then show ?thesis using True ix e
        by (subst previous_sentence_loop.simps) simp
    next
      case ne: False
      then have l: "py_index (text_w ?w) (- 1) = Inr (last (text_w ?w))"
        by (rule py_index_last)
      show ?thesis
      proof (cases "last (text_w ?w) \<in> set (py ''.!?'')")
        case t: True
        show ?thesis using True ix ne l t
          by (subst previous_sentence_loop.simps) auto
      next
        case f: False
        have "\<exists>k. previous_sentence_loop e (idx - 1) = Inr (seek k e)"
          using "1.IH"(1) [OF True ix ne l f] True "1.prems" by simp
        then show ?thesis using True ix ne l f
          by (subst previous_sentence_loop.simps) simp
      qed
    qed
  qed
qed

lemma next_sentence_loop_seek:
  "next_sentence_loop e idx = Inr e' \<Longrightarrow> \<exists>k. e' = seek k e"
proof (induction e idx rule: next_sentence_loop.induct)
  case (1 e idx)
  from "1.prems" show ?case
    by (subst (asm) next_sentence_loop.simps)
       (auto split: if_splits sum.splits dest: "1.IH")
qed

lemma pause_result:
  "pause e = e\<lparr>state := (state e)\<lparr>is_playing := False\<rparr>,
              timer := (timer e)\<lparr>active := False\<rparr>,
              emitted := emitted e @ [state_changed]\<rparr>"
  by (simp add: pause_def engine_defs)

lemma stop_result:
  "stop e = e\<lparr>state := (state e)\<lparr>current_index := 0, is_playing := False\<rparr>,
             timer := (timer e)\<lparr>active := False\<rparr>,
             emitted := emitted e @
               (if words (state e) \<noteq> []
                then [state_changed, progress_changed 0,
                      word_changed (Some (words (state e) ! 0))]
                else [state_changed, progress_changed 0])\<rparr>"
  by (cases "words (state e) = []")
     (simp_all add: stop_def Let_def engine_defs current_word_def)

lemma load_text_result:
  assumes "process_text s = Inr ws"
  shows "load_text s e =
     Inr (e\<lparr>state := (state e)\<lparr>words := ws, current_index := 0, is_playing := False\<rparr>,
            timer := (timer e)\<lparr>active := False\<rparr>,
            emitted := emitted (stop e) @
              [state_changed, progress_changed 0,
               word_changed (if ws \<noteq> [] then Some (ws ! 0) else None)]\<rparr>)"
  unfolding load_text_def Let_def assms
  by (cases "ws = []") (simp_all add: stop_result engine_defs current_word_def)

lemma load_text_emitted:
  assumes "load_text s e = Inr e'"
  shows "\<not> active (timer e') \<and> (\<exists>sigs. emitted e' = emitted e @ sigs \<and> finished \<notin> set sigs)"
proof -
  obtain ws where ws: "process_text s = Inr ws"
    using process_text_result by blast
  have "e' = e\<lparr>state := (state e)\<lparr>words := ws, current_index := 0, is_playing := False\<rparr>,
            timer := (timer e)\<lparr>active := False\<rparr>,
            emitted := emitted (stop e) @
              [state_changed, progress_changed 0,
               word_changed (if ws \<noteq> [] then Some (ws ! 0) else None)]\<rparr>"
    using assms unfolding load_text_result [OF ws] by simp
  then show ?thesis by (simp add: stop_result)
qed

lemma seek_percent_seek: "\<exists>k. seek_percent (Finite p) e = Inr (seek k e)"
proof (cases "words (state e) = []")
  case True
  then have "seek_percent (Finite p) e = Inr (seek 0 e)"
    by (simp add: seek_percent_def seek_empty)
  then show ?thesis by blast
next
  case False
  then show ?thesis using seek_percent_finite [of e p] by blast
qed

lemma seek_inactive:
  assumes "\<not> active (timer e)" and "e' = seek k e"
  shows "\<not> active (timer e') \<and> (\<exists>sigs. emitted e' = emitted e @ sigs \<and> finished \<notin> set sigs)"
  using assms seek_emitted [of k e] by (simp add: seek_timer)

lemma step_inactive:
  assumes "\<not> active (timer e)" and "ev \<noteq> Play" and "ev \<noteq> TogglePlayPause"
    and "step e ev = Inr e'"
  shows "\<not> active (timer e') \<and> (\<exists>sigs. emitted e' = emitted e @ sigs \<and> finished \<notin> set sigs)"
proof (cases ev)
  case (Load s)
  with assms(4) show ?thesis by (simp add: load_text_emitted)
next
  case Pause
  with assms(4) show ?thesis by (auto simp: pause_result)
next
  case Stop
  with assms(4) show ?thesis by (auto simp: stop_result)
next
  case (Seek i)
  with assms(4) have "e' = seek i e" by simp
  with assms(1) show ?thesis by (rule seek_inactive)
next
  case (SeekPercent p)
  with assms(4) obtain k where "e' = seek k e"
    using seek_percent_seek [of "fl p" e] by auto
  with assms(1) show ?thesis by (rule seek_inactive)
next
  case (SkipForward n)
  with assms(4) have "e' = seek (current_index (state e) + n) e"
    by (simp add: skip_forward_def)
  with assms(1) show ?thesis by (rule seek_inactive)
next
  case (SkipBackward n)
  with assms(4) have "e' = seek (current_index (state e) - n) e"
    by (simp add: skip_backward_def)
  with assms(1) show ?thesis by (rule seek_inactive)
next
  case PreviousSentence
  with assms(4) have "e' = e \<or> (\<exists>k. e' = seek k e)"
    by (auto simp: previous_sentence_def split: if_splits dest: previous_sentence_loop_seek)
  then show ?thesis using assms(1) seek_inactive [OF assms(1)] by auto
next
  case NextSentence
  with assms(4) have "e' = e \<or> (\<exists>k. e' = seek k e)"
    by (auto simp: next_sentence_def split: if_splits dest: next_sentence_loop_seek)
  then show ?thesis using assms(1) seek_inactive [OF assms(1)] by auto
next
  case (SetRate v)
  with assms(1,4) set_wpm_result [of v e] show ?thesis by auto
next
  case Tick
  with assms(1,4) show ?thesis by auto
qed (use assms in simp_all)

lemma run_inactive:
  "\<not> active (timer e) \<Longrightarrow> Play \<notin> set evs \<Longrightarrow> TogglePlayPause \<notin> set evs \<Longrightarrow>
   run e evs = Inr e' \<Longrightarrow>
   \<not> active (timer e') \<and> (\<exists>sigs. emitted e' = emitted e @ sigs \<and> finished \<notin> set sigs)"
proof (induction evs arbitrary: e)
  case Nil
  then show ?case by simp
next
  case (Cons ev evs)
  from Cons.prems(4) obtain e1 where e1: "step e ev = Inr e1" "run e1 evs = Inr e'"
    by (auto split: sum.splits)
  from Cons.prems have ev: "ev \<noteq> Play" "ev \<noteq> TogglePlayPause" by auto
  from step_inactive [OF Cons.prems(1) ev e1(1)]
  obtain s1 where s1: "\<not> active (timer e1)" "emitted e1 = emitted e @ s1" "finished \<notin> set s1"
    by blast
  from Cons.IH [OF s1(1) _ _ e1(2)] Cons.prems(2,3)
  obtain s2 where s2: "\<not> active (timer e')" "emitted e' = emitted e1 @ s2" "finished \<notin> set s2"
    by auto
  have "emitted e' = emitted e @ (s1 @ s2)" "finished \<notin> set (s1 @ s2)"
    using s1 s2 by simp_all
  with s2(1) show ?case by blast
qed

lemma run_ticks_inactive: "\<not> active (timer e) \<Longrightarrow> run e (replicate n Tick) = Inr e"
  by (induction n) simp_all

lemma advance_at_end:
  assumes "int (length (words (state e))) \<le> current_index (state e) + 1"
  shows "advance e =
     Inr (e\<lparr>state := (state e)\<lparr>current_index := int (length (words (state e))) - 1,
                                is_playing := False\<rparr>,
            timer := (timer e)\<lparr>active := False\<rparr>,
            emitted := emitted e @ [state_changed, finished]\<rparr>)"
  using assms by (simp add: advance_def Let_def pause_result set_current_index_def emit_def)

lemma advance_inside:
  assumes "current_index (state e) + 1 < int (length (words (state e)))"
    and "wpm (state e) \<noteq> 0"
  shows "\<exists>e'. advance e = Inr e'
     \<and> state e' = (state e)\<lparr>current_index := current_index (state e) + 1\<rparr>
     \<and> active (timer e') = active (timer e)
     \<and> interval (timer e') =
          word_interval (wpm (state e)) (current_word (state e'))
     \<and> emitted e' = emitted e @
          [word_changed (current_word (state e')), progress_changed (progress (state e'))]"
  using assms
  by (simp add: advance_def Let_def update_timer_interval_ok engine_defs)

lemma run_without_ticks:
  "\<not> active (timer e) \<Longrightarrow> Play \<notin> set evs \<Longrightarrow> TogglePlayPause \<notin> set evs \<Longrightarrow>
   run e evs = run e (filter (\<lambda>ev. ev \<noteq> Tick) evs)"
proof (induction evs arbitrary: e)
  case Nil
  show ?case by simp
next
  case (Cons ev evs)
  show ?case
  proof (cases "ev = Tick")
    case True
    with Cons show ?thesis by simp
  next
    case False
    show ?thesis
    proof (cases "step e ev")
      case (Inl err)
      with False show ?thesis by simp
    next
      case (Inr e1)
      from Cons.prems have "ev \<noteq> Play" "ev \<noteq> TogglePlayPause" by auto
      from step_inactive [OF Cons.prems(1) this Inr] have "\<not> active (timer e1)" by blast
      from Cons.IH [OF this] Cons.prems(2,3) Inr False show ?thesis by simp
    qed
  qed
qed

text \<open>
  Claim C1. When a tick of the running timer takes the cursor to \<open>len(words)\<close> or beyond, the
  tick returns normally, the timer is stopped, \<open>is_playing\<close> is false, the cursor is
  \<open>len(words) - 1\<close>, and the tick emits \<open>state_changed\<close> and \<open>finished\<close> and nothing else. From
  then on no tick is delivered: any number of ticks leaves the engine as it is, and along every
  sequence of events without \<open>Play\<close> and \<open>TogglePlayPause\<close> (which calls \<open>play\<close>) the timer
  stays stopped, the ticks of the sequence contribute nothing, and \<open>finished\<close> is not emitted
  again. The slot \<open>_advance\<close> does not test \<open>is_playing\<close> itself (\<open>advance_at_end\<close> holds for
  every engine): that \<open>finished\<close> is not repeated rests on the stopped timer.
\<close>

theorem tick_at_end_finishes:
  assumes "active (timer e)"
    and "int (length (words (state e))) \<le> current_index (state e) + 1"
  shows "\<exists>e'. step e Tick = Inr e'
     \<and> \<not> active (timer e') \<and> \<not> is_playing (state e')
     \<and> current_index (state e') = int (length (words (state e))) - 1
     \<and> words (state e') = words (state e)
     \<and> emitted e' = emitted e @ [state_changed, finished]
     \<and> (\<forall>n. run e' (replicate n Tick) = Inr e')
     \<and> (\<forall>evs e''. Play \<notin> set evs \<and> TogglePlayPause \<notin> set evs \<and> run e' evs = Inr e'' \<longrightarrow>
           \<not> active (timer e'')
           \<and> run e' (filter (\<lambda>ev. ev \<noteq> Tick) evs) = Inr e''
           \<and> (\<exists>sigs. emitted e'' = emitted e' @ sigs \<and> finished \<notin> set sigs))"
proof -
  let ?e' = "e\<lparr>state := (state e)\<lparr>current_index := int (length (words (state e))) - 1,
                                is_playing := False\<rparr>,
            timer := (timer e)\<lparr>active := False\<rparr>,
            emitted := emitted e @ [state_changed, finished]\<rparr>"
  have st: "step e Tick = Inr ?e'"
    using assms(1) advance_at_end [OF assms(2)] by simp
  have off: "\<not> active (timer ?e')" by simp
  have ticks: "\<forall>n. run ?e' (replicate n Tick) = Inr ?e'"
    using run_ticks_inactive [OF off] by blast
  have later: "\<forall>evs e''. Play \<notin> set evs \<and> TogglePlayPause \<notin> set evs \<and> run ?e' evs = Inr e'' \<longrightarrow>
           \<not> active (timer e'')
           \<and> run ?e' (filter (\<lambda>ev. ev \<noteq> Tick) evs) = Inr e''
           \<and> (\<exists>sigs. emitted e'' = emitted ?e' @ sigs \<and> finished \<notin> set sigs)"
  proof (intro allI impI, elim conjE)
    fix evs e''
    assume a: "Play \<notin> set evs" "TogglePlayPause \<notin> set evs" "run ?e' evs = Inr e''"
    from run_inactive [OF off a]
    have "\<not> active (timer e'')" "\<exists>sigs. emitted e'' = emitted ?e' @ sigs \<and> finished \<notin> set sigs"
      by blast+
    moreover have "run ?e' (filter (\<lambda>ev. ev \<noteq> Tick) evs) = Inr e''"
      using run_without_ticks [OF off a(1,2)] a(3) by simp
    ultimately show "\<not> active (timer e'')
           \<and> run ?e' (filter (\<lambda>ev. ev \<noteq> Tick) evs) = Inr e''
           \<and> (\<exists>sigs. emitted e'' = emitted ?e' @ sigs \<and> finished \<notin> set sigs)"
      by blast
  qed
  show ?thesis
    apply (rule exI [of _ ?e'])
    apply (intro conjI)
           apply (rule st)
          apply simp
         apply simp
        apply simp
       apply simp
      apply simp
     apply (rule ticks)
    apply (rule later)
    done
qed

text \<open>C1 at a playing engine whose cursor is on the last of two words.\<close>

theorem tick_at_end_finishes_witness:
  "active (timer \<lparr>state = \<lparr>words = [\<lparr>text_w = py ''Hi.'', orp_index = 0, pause_after = 5 / 2\<rparr>,
        \<lparr>text_w = py ''there'', orp_index = 1, pause_after = 1\<rparr>], current_index = 1,
        wpm = 300, is_playing = True\<rparr>, timer = \<lparr>active = True, interval = 200\<rparr>,
        emitted = []\<rparr>)
   \<and> (\<exists>e'. step \<lparr>state = \<lparr>words = [\<lparr>text_w = py ''Hi.'', orp_index = 0, pause_after = 5 / 2\<rparr>,
        \<lparr>text_w = py ''there'', orp_index = 1, pause_after = 1\<rparr>], current_index = 1,
        wpm = 300, is_playing = True\<rparr>, timer = \<lparr>active = True, interval = 200\<rparr>,
        emitted = []\<rparr> Tick = Inr e'
      \<and> \<not> is_playing (state e') \<and> current_index (state e') = 1
      \<and> emitted e' = [state_changed, finished]
      \<and> run e' (replicate 3 Tick) = Inr e')"
proof -
  let ?E = "\<lparr>state = \<lparr>words = [\<lparr>text_w = py ''Hi.'', orp_index = 0, pause_after = 5 / 2\<rparr>,
        \<lparr>text_w = py ''there'', orp_index = 1, pause_after = 1\<rparr>], current_index = 1,
        wpm = 300, is_playing = True\<rparr>, timer = \<lparr>active = True, interval = 200\<rparr>,
        emitted = []\<rparr>"
  have a: "active (timer ?E)" by simp
  have b: "int (length (words (state ?E))) \<le> current_index (state ?E) + 1" by simp
  from tick_at_end_finishes [OF a b] obtain e' where e': "step ?E Tick = Inr e'"
    "\<not> is_playing (state e')" "current_index (state e') = int (length (words (state ?E))) - 1"
    "emitted e' = emitted ?E @ [state_changed, finished]"
    "\<forall>n. run e' (replicate n Tick) = Inr e'"
    by blast
  from e'(5) have "run e' (replicate 3 Tick) = Inr e'" by blast
  with e'(1-4) a show ?thesis
    by (intro conjI exI [of _ e']) simp_all
qed

lemma engine_inv_init: "engine_inv RSVPEngine_init"
  by (simp add: engine_inv_def RSVPEngine_init_def)

lemma engine_inv_seek: "engine_inv e \<Longrightarrow> engine_inv (seek k e)"
proof (cases "words (state e) = []")
  case True
  then show "engine_inv e \<Longrightarrow> engine_inv (seek k e)" by (simp add: seek_empty)
next
  case False
  then have "0 < int (length (words (state e)))" by simp
  then show "engine_inv e \<Longrightarrow> engine_inv (seek k e)"
    using False by (simp add: engine_inv_def seek_state seek_timer)
qed

lemma engine_inv_step:
  assumes "engine_inv e"
  shows "\<exists>e'. step e ev = Inr e' \<and> engine_inv e'"
proof (cases ev)
  case (Load s)
  obtain ws where ws: "process_text s = Inr ws"
    using process_text_result by blast
  from assms show ?thesis
    unfolding Load by (simp add: load_text_result [OF ws] engine_inv_def)
next
  case Play
  show ?thesis
  proof (cases "words (state e) = []")
    case True
    with assms Play show ?thesis by (simp add: play_empty)
  next
    case False
    from assms have "wpm (state e) \<noteq> 0" by (simp add: engine_inv_def)
    from play_nonempty [OF False this] obtain e' where e': "play e = Inr e'"
      "state e' = (state e)\<lparr>current_index :=
            (if current_index (state e) \<ge> int (length (words (state e))) - 1 then 0
             else current_index (state e)),
          is_playing := True\<rparr>"
      "active (timer e')"
      by auto
    have "engine_inv e'"
      using assms False e'(2,3) by (simp add: engine_inv_def)
    with e'(1) Play show ?thesis by simp
  qed
next
  case Pause
  with assms show ?thesis by (simp add: pause_result engine_inv_def)
next
  case TogglePlayPause
  show ?thesis
  proof (cases "is_playing (state e)")
    case True
    with assms TogglePlayPause show ?thesis
      by (simp add: toggle_play_pause_def pause_result engine_inv_def)
  next
    case np: False
    show ?thesis
    proof (cases "words (state e) = []")
      case True
      with assms TogglePlayPause np show ?thesis by (simp add: toggle_play_pause_def play_empty)
    next
      case False
      from assms have "wpm (state e) \<noteq> 0" by (simp add: engine_inv_def)
      from play_nonempty [OF False this] obtain e' where e': "play e = Inr e'"
        "state e' = (state e)\<lparr>current_index :=
            (if current_index (state e) \<ge> int (length (words (state e))) - 1 then 0
             else current_index (state e)),
          is_playing := True\<rparr>"
        "active (timer e')"
        by auto
      have "engine_inv e'"
        using assms False e'(2,3) by (simp add: engine_inv_def)
      with e'(1) TogglePlayPause np show ?thesis by (simp add: toggle_play_pause_def)
    qed
  qed
next
  case Stop
  with assms show ?thesis by (simp add: stop_result engine_inv_def)
next
  case (Seek i)
  with assms show ?thesis by (simp add: engine_inv_seek)
next
  case (SeekPercent p)
  obtain k where "seek_percent (Finite (fl p)) e = Inr (seek k e)" using seek_percent_seek by blast
  with assms SeekPercent show ?thesis by (simp add: engine_inv_seek)
next
  case (SkipForward n)
  with assms show ?thesis by (simp add: skip_forward_def engine_inv_seek)
next
  case (SkipBackward n)
  with assms show ?thesis by (simp add: skip_backward_def engine_inv_seek)
next
  case PreviousSentence
  show ?thesis
  proof (cases "words (state e) = []")
    case True
    with assms PreviousSentence show ?thesis by (simp add: previous_sentence_def)
  next
    case False
    with assms have "0 \<le> max 0 (current_index (state e) - 1)"
      "max 0 (current_index (state e) - 1) < int (length (words (state e)))"
      by (simp_all add: engine_inv_def)
    from previous_sentence_loop_total [OF this]
    obtain k where "previous_sentence_loop e (max 0 (current_index (state e) - 1)) = Inr (seek k e)"
      by blast
    with assms False PreviousSentence show ?thesis
      by (simp add: previous_sentence_def engine_inv_seek)
  qed
next
  case NextSentence
  show ?thesis
  proof (cases "words (state e) = []")
    case True
    with assms NextSentence show ?thesis by (simp add: next_sentence_def)
  next
    case False
    with assms have "0 \<le> current_index (state e)" by (simp add: engine_inv_def)
    from next_sentence_loop_spec [OF this] assms False NextSentence show ?thesis
      by (simp add: next_sentence_def engine_inv_seek)
  qed
next
  case (SetRate v)
  obtain e' where e': "set_wpm v e = Inr e'"
    "state e' = (state e)\<lparr>wpm := max 50 (min 2000 v)\<rparr>"
    "active (timer e') = active (timer e)"
    using set_wpm_result [of v e] by blast
  have "engine_inv e'" using assms e'(2,3) by (simp add: engine_inv_def)
  with e'(1) SetRate show ?thesis by simp
next
  case Tick
  show ?thesis
  proof (cases "active (timer e)")
    case False
    with assms Tick show ?thesis by simp
  next
    case True
    with assms have ne: "words (state e) \<noteq> []" and nz: "wpm (state e) \<noteq> 0"
      by (simp_all add: engine_inv_def)
    show ?thesis
    proof (cases "int (length (words (state e))) \<le> current_index (state e) + 1")
      case e: True
      from ne have "0 < int (length (words (state e)))" by simp
      with assms ne True Tick show ?thesis
        by (simp add: advance_at_end [OF e] engine_inv_def)
    next
      case False
      then have lt: "current_index (state e) + 1 < int (length (words (state e)))" by simp
      from advance_inside [OF lt nz] obtain e' where e': "advance e = Inr e'"
        "state e' = (state e)\<lparr>current_index := current_index (state e) + 1\<rparr>"
        "active (timer e') = active (timer e)"
        by blast
      have "engine_inv e'" using assms lt e'(2,3) ne by (simp add: engine_inv_def)
      with e'(1) True Tick show ?thesis by simp
    qed
  qed
qed

lemma engine_inv_run: "engine_inv e \<Longrightarrow> \<exists>e'. run e evs = Inr e' \<and> engine_inv e'"
proof (induction evs arbitrary: e)
  case Nil
  then show ?case by simp
next
  case (Cons ev evs)
  from engine_inv_step [OF Cons.prems, of ev] obtain e1 where "step e ev = Inr e1" "engine_inv e1"
    by blast
  with Cons.IH [of e1] show ?case by simp
qed

text \<open>
  Claim C2. Every sequence of public operations and timer ticks, started at the initial
  engine, runs without raising and ends in a state where \<open>0 \<le> cursor < len(words)\<close> if there
  are words and \<open>cursor = 0\<close> if there are none. Ticks are delivered only while the timer is
  active, and in every such state the timer is active exactly when \<open>is_playing\<close> holds.
\<close>

theorem cursor_invariant:
  "\<exists>e. run RSVPEngine_init evs = Inr e
     \<and> (words (state e) \<noteq> [] \<longrightarrow>
          0 \<le> current_index (state e) \<and> current_index (state e) < int (length (words (state e))))
     \<and> (words (state e) = [] \<longrightarrow> current_index (state e) = 0)
     \<and> active (timer e) = is_playing (state e)"
proof -
  obtain e where "run RSVPEngine_init evs = Inr e" "engine_inv e"
    using engine_inv_run [OF engine_inv_init] by blast
  then show ?thesis by (auto simp: engine_inv_def)
qed

text \<open>C2 at a run that ends without words and at a run that ends with two words.\<close>

theorem cursor_invariant_witness:
  "(\<exists>e. run RSVPEngine_init [Seek 3, Tick] = Inr e \<and> words (state e) = []
        \<and> current_index (state e) = 0)
   \<and> (\<exists>e. run RSVPEngine_init [Load (py ''a b''), Play, Tick, Tick, SkipForward 10] = Inr e
        \<and> words (state e) \<noteq> [] \<and> 0 \<le> current_index (state e)
        \<and> current_index (state e) < int (length (words (state e))))"
proof -
  from cursor_invariant [of "[Seek 3, Tick]"] obtain e where e:
    "run RSVPEngine_init [Seek 3, Tick] = Inr e"
    "words (state e) = [] \<longrightarrow> current_index (state e) = 0"
    by blast
  have "run RSVPEngine_init [Seek 3, Tick] = Inr RSVPEngine_init"
    by (simp add: RSVPEngine_init_def seek_def)
  with e have first: "\<exists>e. run RSVPEngine_init [Seek 3, Tick] = Inr e \<and> words (state e) = []
        \<and> current_index (state e) = 0"
    by (simp add: RSVPEngine_init_def)
  let ?evs = "[Load (py ''a b''), Play, Tick, Tick, SkipForward 10]"
  from cursor_invariant [of ?evs] obtain e2 where e2:
    "run RSVPEngine_init ?evs = Inr e2"
    "words (state e2) \<noteq> [] \<longrightarrow>
          0 \<le> current_index (state e2) \<and> current_index (state e2) < int (length (words (state e2)))"
    by blast
  have pt: "process_text (py ''a b'') = Inr
     [\<lparr>text_w = py ''a'', orp_index = 0, pause_after = 1\<rparr>,
      \<lparr>text_w = py ''b'', orp_index = 0, pause_after = 1\<rparr>]"
    by (simp add: text_eval)
  have "\<exists>e. run RSVPEngine_init ?evs = Inr e \<and> length (words (state e)) = 2"
    by (simp add: load_text_result [OF pt] RSVPEngine_init_def play_def advance_def Let_def
        update_timer_interval_def current_word_def progress_def py_int_def pause_result
        stop_result engine_defs skip_forward_def seek_def)
  with e2 have second: "\<exists>e. run RSVPEngine_init ?evs = Inr e
        \<and> words (state e) \<noteq> [] \<and> 0 \<le> current_index (state e)
        \<and> current_index (state e) < int (length (words (state e)))"
    by auto
  from first second show ?thesis by blast
qed

text \<open>
  Claim C9. For every \<open>v\<close> the setter of \<open>wpm\<close> returns normally and stores
  \<open>max(50, min(2000, v))\<close>, a rate between 50 and 2000 and so positive; the division in
  \<open>_update_timer_interval\<close> then does not raise. While playing, the timer's interval is
  recomputed from the new rate and the current word, \<open>int((60000 / wpm) * pause_after)\<close> as
  the doubles give it (\<open>word_interval\<close>); otherwise the timer is untouched. Words, cursor and
  playing flag are kept. In every state reached from the initial engine the rate is between
  50 and 2000 and the division does not raise. The pause factors are taken of magnitude up
  to \<open>2^960\<close>, which keeps the doubles inside the exponent range; the tokenizer's are 1, 1.2,
  1.5 and 2.5.
\<close>

theorem set_wpm_spec:
  assumes "\<forall>w \<in> set (words (state e)). \<bar>pause_after w\<bar> \<le> 2 ^ 960"
  shows "\<exists>e'. set_wpm v e = Inr e'
     \<and> wpm (state e') = max 50 (min 2000 v)
     \<and> 50 \<le> wpm (state e') \<and> wpm (state e') \<le> 2000 \<and> 0 < wpm (state e')
     \<and> update_timer_interval e' \<noteq> Inl ZeroDivisionError
     \<and> (is_playing (state e) \<longrightarrow>
          interval (timer e') =
            word_interval (wpm (state e')) (current_word (state e')))
     \<and> (\<not> is_playing (state e) \<longrightarrow> timer e' = timer e)
     \<and> words (state e') = words (state e)
     \<and> current_index (state e') = current_index (state e)
     \<and> is_playing (state e') = is_playing (state e)
     \<and> (\<forall>evs. \<exists>e1. run RSVPEngine_init evs = Inr e1
           \<and> 50 \<le> wpm (state e1) \<and> wpm (state e1) \<le> 2000
           \<and> update_timer_interval e1 \<noteq> Inl ZeroDivisionError)"
proof -
  obtain e' where e': "set_wpm v e = Inr e'"
    "state e' = (state e)\<lparr>wpm := max 50 (min 2000 v)\<rparr>"
    "is_playing (state e) \<longrightarrow>
          interval (timer e') =
            word_interval (max 50 (min 2000 v)) (current_word (state e'))"
    "\<not> is_playing (state e) \<longrightarrow> timer e' = timer e"
    using set_wpm_result [of v e] by blast
  have nz: "wpm (state e') \<noteq> 0" by (simp add: e'(2))
  have ok: "update_timer_interval e' \<noteq> Inl ZeroDivisionError"
    by (simp add: update_timer_interval_ok [OF nz])
  have always: "\<forall>evs. \<exists>e1. run RSVPEngine_init evs = Inr e1
           \<and> 50 \<le> wpm (state e1) \<and> wpm (state e1) \<le> 2000
           \<and> update_timer_interval e1 \<noteq> Inl ZeroDivisionError"
  proof
    fix evs
    obtain e1 where e1: "run RSVPEngine_init evs = Inr e1" "engine_inv e1"
      using engine_inv_run [OF engine_inv_init] by blast
    then have r: "50 \<le> wpm (state e1)" "wpm (state e1) \<le> 2000"
      by (simp_all add: engine_inv_def)
    then have "wpm (state e1) \<noteq> 0" by simp
    then have "update_timer_interval e1 \<noteq> Inl ZeroDivisionError"
      by (simp add: update_timer_interval_ok)
    with e1(1) r show "\<exists>e1. run RSVPEngine_init evs = Inr e1
           \<and> 50 \<le> wpm (state e1) \<and> wpm (state e1) \<le> 2000
           \<and> update_timer_interval e1 \<noteq> Inl ZeroDivisionError"
      by blast
  qed
  show ?thesis
    apply (rule exI [of _ e'])
    using e' ok always apply simp
    done
qed

text \<open>
  C9 at an engine playing the word \<open>(hi)\<close>: the rate 5000 is stored as 2000, and at the rate
  720 the interval becomes 99.
\<close>

theorem set_wpm_spec_witness:
  "(\<exists>e'. set_wpm 5000
      \<lparr>state = \<lparr>words = [\<lparr>text_w = py ''(hi)'', orp_index = 1, pause_after = 6 / 5\<rparr>,
          \<lparr>text_w = py ''there'', orp_index = 1, pause_after = 1\<rparr>], current_index = 0,
          wpm = 300, is_playing = True\<rparr>, timer = \<lparr>active = True, interval = 240\<rparr>,
          emitted = []\<rparr> = Inr e'
     \<and> wpm (state e') = 2000)
   \<and> (\<exists>e'. set_wpm 720
      \<lparr>state = \<lparr>words = [\<lparr>text_w = py ''(hi)'', orp_index = 1, pause_after = 6 / 5\<rparr>,
          \<lparr>text_w = py ''there'', orp_index = 1, pause_after = 1\<rparr>], current_index = 0,
          wpm = 300, is_playing = True\<rparr>, timer = \<lparr>active = True, interval = 240\<rparr>,
          emitted = []\<rparr> = Inr e'
     \<and> wpm (state e') = 720 \<and> interval (timer e') = 99)"
proof -
  let ?E = "\<lparr>state = \<lparr>words = [\<lparr>text_w = py ''(hi)'', orp_index = 1, pause_after = 6 / 5\<rparr>,
          \<lparr>text_w = py ''there'', orp_index = 1, pause_after = 1\<rparr>], current_index = 0,
          wpm = 300, is_playing = True\<rparr>, timer = \<lparr>active = True, interval = 240\<rparr>,
          emitted = []\<rparr>"
  have h: "\<forall>w \<in> set (words (state ?E)). \<bar>pause_after w\<bar> \<le> 2 ^ 960" by simp
  from set_wpm_spec [OF h, of 5000] obtain e1 where e1: "set_wpm 5000 ?E = Inr e1"
    "wpm (state e1) = max 50 (min 2000 5000)"
    by blast
  then have first: "\<exists>e'. set_wpm 5000 ?E = Inr e' \<and> wpm (state e') = 2000"
    by simp
  from set_wpm_spec [OF h, of 720] obtain e' where e': "set_wpm 720 ?E = Inr e'"
    "wpm (state e') = max 50 (min 2000 720)"
    "is_playing (state ?E) \<longrightarrow>
          interval (timer e') = word_interval (wpm (state e')) (current_word (state e'))"
    "words (state e') = words (state ?E)" "current_index (state e') = current_index (state ?E)"
    by blast
  have w: "wpm (state e') = 720" using e'(2) by simp
  have cw: "current_word (state e')
      = Some \<lparr>text_w = py ''(hi)'', orp_index = 1, pause_after = 6 / 5\<rparr>"
    using e'(4,5) by (simp add: current_word_def)
  have "interval (timer e') = word_interval (wpm (state e')) (current_word (state e'))"
    using e'(3) by simp
  then have "interval (timer e') = 99"
    unfolding cw w by (simp add: word_interval_720)
  with e'(1) w first show ?thesis by blast
qed

end
